theory Spec2Isabelle
  imports Complex_Main
begin

section \<open>Continuum removal by upper convex hull: model of \<open>my_module.py\<close>\<close>

subsection \<open>Numbers, errors and array accesses\<close>

text \<open>
  The routines are compiled with \<open>@njit\<close> and work on float64 arrays. A float64
  value is modelled as a finite real number or one of the three special values; the two
  signed zeros are identified. The input arrays \<open>x\<close> and \<open>y\<close> are lists of finite
  numbers (\<open>real list\<close>); special values appear only where the code itself creates
  them: the \<open>np.nan\<close> filler of the preallocated hull arrays and the elementwise
  division \<open>y/c\<close>.

  The arithmetic comes at two levels. The functions of this and the next four
  subsections compute finite results exactly. The functions with suffix \<open>_fl\<close> further
  below are the same code with every finite result of an operation passed through a
  rounding function \<open>rd\<close>; \<open>rne64\<close> is the rounding of float64 (to nearest, ties to
  even, overflow to infinity), and with \<open>rd = Fin\<close> they are the exact functions.
\<close>

datatype f64 = Fin real | PInf | NInf | NaN

datatype error = ValueError string | ZeroDivisionError | IndexError

definition ebind :: "error + 'a \<Rightarrow> ('a \<Rightarrow> error + 'b) \<Rightarrow> error + 'b" where
  "ebind m f = (case m of Inl e \<Rightarrow> Inl e | Inr v \<Rightarrow> f v)"

fun fneg :: "f64 \<Rightarrow> f64" where
  "fneg (Fin a) = Fin (- a)"
| "fneg PInf = NInf"
| "fneg NInf = PInf"
| "fneg NaN = NaN"

fun fadd :: "f64 \<Rightarrow> f64 \<Rightarrow> f64" where
  "fadd (Fin a) (Fin b) = Fin (a + b)"
| "fadd NaN _ = NaN"
| "fadd _ NaN = NaN"
| "fadd PInf NInf = NaN"
| "fadd NInf PInf = NaN"
| "fadd PInf _ = PInf"
| "fadd _ PInf = PInf"
| "fadd NInf _ = NInf"
| "fadd _ NInf = NInf"

definition fsub :: "f64 \<Rightarrow> f64 \<Rightarrow> f64" where
  "fsub a b = fadd a (fneg b)"

fun fsgn :: "f64 \<Rightarrow> real" where
  "fsgn (Fin a) = sgn a"
| "fsgn PInf = 1"
| "fsgn NInf = - 1"
| "fsgn NaN = 0"

definition inf_of :: "real \<Rightarrow> f64" where
  "inf_of s = (if 0 < s then PInf else if s < 0 then NInf else NaN)"

fun fmul :: "f64 \<Rightarrow> f64 \<Rightarrow> f64" where
  "fmul (Fin a) (Fin b) = Fin (a * b)"
| "fmul NaN _ = NaN"
| "fmul _ NaN = NaN"
| "fmul a b = inf_of (fsgn a * fsgn b)"

text \<open>
  Division of array elements by numpy (\<open>y/c\<close>, and the slopes inside \<open>np.interp\<close>):
  a zero divisor gives an infinity, or NaN for \<open>0/0\<close>, and never raises.
\<close>

fun fdiv_np :: "f64 \<Rightarrow> f64 \<Rightarrow> f64" where
  "fdiv_np NaN _ = NaN"
| "fdiv_np _ NaN = NaN"
| "fdiv_np (Fin a) (Fin b) = (if b = 0 then inf_of (sgn a) else Fin (a / b))"
| "fdiv_np (Fin a) _ = Fin 0"
| "fdiv_np a (Fin b) = inf_of (fsgn a * (if b < 0 then - 1 else 1))"
| "fdiv_np _ _ = NaN"

text \<open>
  Division of two scalars inside an \<open>@njit\<close> function: numba's default error model is
  Python's, so a zero divisor raises \<open>ZeroDivisionError\<close>.
\<close>

definition fdiv_py :: "f64 \<Rightarrow> f64 \<Rightarrow> error + f64" where
  "fdiv_py a b = (if b = Fin 0 then Inl ZeroDivisionError else Inr (fdiv_np a b))"

fun flt :: "f64 \<Rightarrow> f64 \<Rightarrow> bool" where
  "flt (Fin a) (Fin b) = (a < b)"
| "flt NaN _ = False"
| "flt _ NaN = False"
| "flt NInf NInf = False"
| "flt NInf _ = True"
| "flt _ NInf = False"
| "flt PInf _ = False"
| "flt _ PInf = True"

definition fgt :: "f64 \<Rightarrow> f64 \<Rightarrow> bool" where
  "fgt a b = flt b a"

definition feq :: "f64 \<Rightarrow> f64 \<Rightarrow> bool" where
  "feq a b = (a \<noteq> NaN \<and> a = b)"

text \<open>
  Array reads and writes are checked: an index outside the array is \<open>IndexError\<close>, so
  that a run of the model that returns a value has made no access out of bounds.
\<close>

definition aget :: "'a list \<Rightarrow> nat \<Rightarrow> error + 'a" where
  "aget a k = (if k < length a then Inr (a ! k) else Inl IndexError)"

definition aset :: "'a list \<Rightarrow> nat \<Rightarrow> 'a \<Rightarrow> error + 'a list" where
  "aset a k v = (if k < length a then Inr (a[k := v]) else Inl IndexError)"

subsection \<open>The turn predicate\<close>

text \<open>
  \<^verbatim>\<open>slope1 = (y2 - y1)/(x2 - x1); slope2 = (y3 - y2)/(x3 - x2); return slope2 > slope1\<close>
\<close>

definition left_turn_for_convex_hull ::
    "f64 \<Rightarrow> f64 \<Rightarrow> f64 \<Rightarrow> f64 \<Rightarrow> f64 \<Rightarrow> f64 \<Rightarrow> error + bool" where
  "left_turn_for_convex_hull x1 y1 x2 y2 x3 y3 =
     ebind (fdiv_py (fsub y2 y1) (fsub x2 x1)) (\<lambda>slope1.
     ebind (fdiv_py (fsub y3 y2) (fsub x3 x2)) (\<lambda>slope2.
     Inr (fgt slope2 slope1)))"

subsection \<open>The hull builders\<close>

text \<open>
  The state of the loop: the two preallocated arrays and the hull size \<open>nh\<close>.
  \<open>upper_convex_hull\<close> and \<open>lower_convex_hull\<close> are the same text in the source but for
  one \<open>not\<close> in the condition of the while loop; the flag \<open>up\<close> of the loop functions
  below selects the condition (\<open>True\<close>: upper).
\<close>

record hull_state =
  hullx :: "f64 list"
  hully :: "f64 list"
  nh :: nat

definition size_mismatch_msg :: string where
  "size_mismatch_msg = ''x and y lenghts must be same''"

definition size_small_msg :: string where
  "size_small_msg = ''x and y lenghts must be grater than 2''"

text \<open>
  The condition of the while loop, \<open>nh >= 2 and [not] left_turn_for_convex_hull(...)\<close>;
  \<open>and\<close> evaluates its second operand only when the first holds.
\<close>

definition pop_test :: "bool \<Rightarrow> real list \<Rightarrow> real list \<Rightarrow> nat \<Rightarrow> hull_state \<Rightarrow> error + bool" where
  "pop_test up x y i s =
     (if 2 \<le> nh s then
        ebind (aget (hullx s) (nh s - 2)) (\<lambda>x1.
        ebind (aget (hully s) (nh s - 2)) (\<lambda>y1.
        ebind (aget (hullx s) (nh s - 1)) (\<lambda>x2.
        ebind (aget (hully s) (nh s - 1)) (\<lambda>y2.
        ebind (aget x i) (\<lambda>x3.
        ebind (aget y i) (\<lambda>y3.
        ebind (left_turn_for_convex_hull x1 y1 x2 y2 (Fin x3) (Fin y3)) (\<lambda>t.
        Inr (if up then t else \<not> t))))))))
      else Inr False)"

function hull_while :: "bool \<Rightarrow> real list \<Rightarrow> real list \<Rightarrow> nat \<Rightarrow> hull_state \<Rightarrow> error + hull_state" where
  "hull_while up x y i s =
     (case pop_test up x y i s of
        Inl e \<Rightarrow> Inl e
      | Inr t \<Rightarrow> if t then hull_while up x y i (s\<lparr>nh := nh s - 1\<rparr>) else Inr s)"
  by pat_completeness auto
termination
proof (relation "measure (\<lambda>(up, x, y, i, s). nh s)")
  show "wf (measure (\<lambda>(up, x, y, i, s). nh s))" by simp
next
  fix up :: bool and x y :: "real list" and i :: nat and s :: hull_state and t :: bool
  assume "pop_test up x y i s = Inr t" and "t"
  then have "2 \<le> nh s"
    by (cases "2 \<le> nh s") (simp_all add: pop_test_def)
  then show "((up, x, y, i, s\<lparr>nh := nh s - 1\<rparr>), (up, x, y, i, s)) \<in> measure (\<lambda>(up, x, y, i, s). nh s)"
    by simp
qed

text \<open>\<^verbatim>\<open>hullx[nh] = x[i]; hully[nh] = y[i]; nh += 1\<close>\<close>

definition push :: "real list \<Rightarrow> real list \<Rightarrow> nat \<Rightarrow> hull_state \<Rightarrow> error + hull_state" where
  "push x y i s =
     ebind (aget x i) (\<lambda>xi.
     ebind (aset (hullx s) (nh s) (Fin xi)) (\<lambda>hx.
     ebind (aget y i) (\<lambda>yi.
     ebind (aset (hully s) (nh s) (Fin yi)) (\<lambda>hy.
     Inr \<lparr>hullx = hx, hully = hy, nh = nh s + 1\<rparr>))))"

text \<open>\<^verbatim>\<open>for i in range(2, n)\<close>, entered with \<open>i = 2\<close>.\<close>

function hull_for :: "bool \<Rightarrow> real list \<Rightarrow> real list \<Rightarrow> nat \<Rightarrow> nat \<Rightarrow> hull_state \<Rightarrow> error + hull_state" where
  "hull_for up x y n i s =
     (if i < n then
        ebind (hull_while up x y i s) (\<lambda>s1.
        ebind (push x y i s1) (\<lambda>s2.
        hull_for up x y n (i + 1) s2))
      else Inr s)"
  by pat_completeness auto
termination
  by (relation "measure (\<lambda>(up, x, y, n, i, s). n - i)") auto

text \<open>The two arrays filled with \<open>np.nan\<close> and seeded with the first two points.\<close>

definition hull_init :: "real list \<Rightarrow> real list \<Rightarrow> nat \<Rightarrow> error + hull_state" where
  "hull_init x y n =
     ebind (aget x 0) (\<lambda>x0.
     ebind (aget y 0) (\<lambda>y0.
     ebind (aset (replicate n NaN) 0 (Fin x0)) (\<lambda>hx0.
     ebind (aset (replicate n NaN) 0 (Fin y0)) (\<lambda>hy0.
     ebind (aget x 1) (\<lambda>x1.
     ebind (aget y 1) (\<lambda>y1.
     ebind (aset hx0 1 (Fin x1)) (\<lambda>hx1.
     ebind (aset hy0 1 (Fin y1)) (\<lambda>hy1.
     Inr \<lparr>hullx = hx1, hully = hy1, nh = 2\<rparr>))))))))"

definition convex_hull :: "bool \<Rightarrow> real list \<Rightarrow> real list \<Rightarrow> error + (f64 list \<times> f64 list)" where
  "convex_hull up x y =
     (let n = length x in
      if n \<noteq> length y then Inl (ValueError size_mismatch_msg)
      else if n \<le> 2 then Inl (ValueError size_small_msg)
      else
        ebind (hull_init x y n) (\<lambda>s0.
        ebind (hull_for up x y n 2 s0) (\<lambda>s.
        Inr (take (nh s) (hullx s), take (nh s) (hully s)))))"

definition upper_convex_hull :: "real list \<Rightarrow> real list \<Rightarrow> error + (f64 list \<times> f64 list)" where
  "upper_convex_hull x y = convex_hull True x y"

definition lower_convex_hull :: "real list \<Rightarrow> real list \<Rightarrow> error + (f64 list \<times> f64 list)" where
  "lower_convex_hull x y = convex_hull False x y"

declare hull_while.simps [simp del] hull_for.simps [simp del]

subsection \<open>Interpolation\<close>

text \<open>
  \<open>np.interp(x, xp, fp)\<close> is numpy's routine (numba's implementation of it), not code
  of this module. It is modelled from its documented behaviour for increasing sample
  points \<open>xp\<close>: the value \<open>fp[0]\<close> to the left of \<open>xp[0]\<close>, \<open>fp[-1]\<close> to the right of
  \<open>xp[-1]\<close>, \<open>fp[j]\<close> where \<open>x\<close> is \<open>xp[j]\<close>, and
  \<open>slope * (x - xp[j]) + fp[j]\<close> with \<open>slope = (fp[j+1] - fp[j]) / (xp[j+1] - xp[j])\<close>
  where \<open>xp[j] < x < xp[j+1]\<close>; a NaN in \<open>x\<close> gives NaN. It raises \<open>ValueError\<close> for
  empty sample points and for \<open>xp\<close> and \<open>fp\<close> of different lengths.
\<close>

fun interp_seg :: "f64 \<Rightarrow> (f64 \<times> f64) list \<Rightarrow> f64" where
  "interp_seg v [] = NaN"
| "interp_seg v [(a, b)] = b"
| "interp_seg v ((a, b) # (a', b') # ps) =
     (if flt v a' then
        (if feq a v then b
         else fadd (fmul (fdiv_np (fsub b' b) (fsub a' a)) (fsub v a)) b)
      else interp_seg v ((a', b') # ps))"

definition interp_point :: "f64 list \<Rightarrow> f64 list \<Rightarrow> f64 \<Rightarrow> f64" where
  "interp_point xp fp v =
     (if v = NaN then NaN
      else if flt v (hd xp) then hd fp
      else if flt (last xp) v then last fp
      else interp_seg v (zip xp fp))"

definition interp_empty_msg :: string where
  "interp_empty_msg = ''array of sample points is empty''"

definition interp_size_msg :: string where
  "interp_size_msg = ''fp and xp are not of the same size.''"

definition np_interp :: "f64 list \<Rightarrow> f64 list \<Rightarrow> f64 list \<Rightarrow> error + f64 list" where
  "np_interp xs xp fp =
     (if xp = [] then Inl (ValueError interp_empty_msg)
      else if length xp \<noteq> length fp then Inl (ValueError interp_size_msg)
      else Inr (map (interp_point xp fp) xs))"

subsection \<open>The pipeline\<close>

text \<open>
  \<open>a[flag]\<close> with a boolean array \<open>flag\<close>: the compiled code walks the mask and reads
  \<open>a[i]\<close> wherever \<open>flag[i]\<close> holds, without comparing the two lengths. The result is
  the list of the elements of \<open>a\<close> at the positions where \<open>flag\<close> holds; a position
  past the end of \<open>a\<close> where \<open>flag\<close> holds is a read out of bounds, which is
  \<open>IndexError\<close> here like every access out of bounds.
\<close>

definition mask_select :: "bool list \<Rightarrow> 'a list \<Rightarrow> error + 'a list" where
  "mask_select flag a =
     (if list_ex id (drop (length a) flag) then Inl IndexError
      else Inr (map snd (filter fst (zip flag a))))"

definition unsupported_msg :: string where
  "unsupported_msg =
     ''Only upper convex hull supported with inner x'' @ [CHR 0x0A] @ ''        values''"

text \<open>
  The result is \<open>(x, Cy, c)\<close>: the windowed wavelengths, the ratio and the continuum.
  The arguments \<open>left_outer_x\<close> and \<open>right_outer_x\<close> are not read.
\<close>

definition continuum_removal ::
    "real list \<Rightarrow> real list \<Rightarrow> string \<Rightarrow> real \<Rightarrow> real \<Rightarrow> real \<Rightarrow> real
       \<Rightarrow> error + (real list \<times> f64 list \<times> f64 list)" where
  "continuum_removal x y continuum_type left_outer_x left_inner_x right_inner_x right_outer_x =
     (if continuum_type = ''uh'' then
        (let x_min = left_inner_x; x_max = right_inner_x;
             flag = map (\<lambda>v. x_min \<le> v \<and> v \<le> x_max) x
         in
           ebind (mask_select flag x) (\<lambda>xw.
           ebind (mask_select flag y) (\<lambda>yw.
           ebind (upper_convex_hull xw yw) (\<lambda>(hx, hy).
           ebind (np_interp (map Fin xw) hx hy) (\<lambda>c.
           Inr (xw, map2 fdiv_np (map Fin yw) c, c))))))
      else Inl (ValueError unsupported_msg))"

subsection \<open>The same code with rounded arithmetic\<close>

text \<open>
  Every function that computes with float64 values, once more, with the finite result of
  each addition, subtraction, multiplication and division passed through \<open>rd\<close>, which
  returns the float64 value the operation stores (a finite number or an infinity).
  Comparisons do not round. Operations on special values are as above.
\<close>

definition fadd_fl :: "(real \<Rightarrow> f64) \<Rightarrow> f64 \<Rightarrow> f64 \<Rightarrow> f64" where
  "fadd_fl rd a b = (case (a, b) of (Fin u, Fin v) \<Rightarrow> rd (u + v) | _ \<Rightarrow> fadd a b)"

definition fsub_fl :: "(real \<Rightarrow> f64) \<Rightarrow> f64 \<Rightarrow> f64 \<Rightarrow> f64" where
  "fsub_fl rd a b = (case (a, b) of (Fin u, Fin v) \<Rightarrow> rd (u - v) | _ \<Rightarrow> fsub a b)"

definition fmul_fl :: "(real \<Rightarrow> f64) \<Rightarrow> f64 \<Rightarrow> f64 \<Rightarrow> f64" where
  "fmul_fl rd a b = (case (a, b) of (Fin u, Fin v) \<Rightarrow> rd (u * v) | _ \<Rightarrow> fmul a b)"

definition fdiv_np_fl :: "(real \<Rightarrow> f64) \<Rightarrow> f64 \<Rightarrow> f64 \<Rightarrow> f64" where
  "fdiv_np_fl rd a b =
     (case (a, b) of
        (Fin u, Fin v) \<Rightarrow> if v = 0 then inf_of (sgn u) else rd (u / v)
      | _ \<Rightarrow> fdiv_np a b)"

definition fdiv_py_fl :: "(real \<Rightarrow> f64) \<Rightarrow> f64 \<Rightarrow> f64 \<Rightarrow> error + f64" where
  "fdiv_py_fl rd a b = (if b = Fin 0 then Inl ZeroDivisionError else Inr (fdiv_np_fl rd a b))"

definition left_turn_for_convex_hull_fl ::
    "(real \<Rightarrow> f64) \<Rightarrow> f64 \<Rightarrow> f64 \<Rightarrow> f64 \<Rightarrow> f64 \<Rightarrow> f64 \<Rightarrow> f64 \<Rightarrow> error + bool" where
  "left_turn_for_convex_hull_fl rd x1 y1 x2 y2 x3 y3 =
     ebind (fdiv_py_fl rd (fsub_fl rd y2 y1) (fsub_fl rd x2 x1)) (\<lambda>slope1.
     ebind (fdiv_py_fl rd (fsub_fl rd y3 y2) (fsub_fl rd x3 x2)) (\<lambda>slope2.
     Inr (fgt slope2 slope1)))"

definition pop_test_fl ::
    "(real \<Rightarrow> f64) \<Rightarrow> bool \<Rightarrow> real list \<Rightarrow> real list \<Rightarrow> nat \<Rightarrow> hull_state \<Rightarrow> error + bool" where
  "pop_test_fl rd up x y i s =
     (if 2 \<le> nh s then
        ebind (aget (hullx s) (nh s - 2)) (\<lambda>x1.
        ebind (aget (hully s) (nh s - 2)) (\<lambda>y1.
        ebind (aget (hullx s) (nh s - 1)) (\<lambda>x2.
        ebind (aget (hully s) (nh s - 1)) (\<lambda>y2.
        ebind (aget x i) (\<lambda>x3.
        ebind (aget y i) (\<lambda>y3.
        ebind (left_turn_for_convex_hull_fl rd x1 y1 x2 y2 (Fin x3) (Fin y3)) (\<lambda>t.
        Inr (if up then t else \<not> t))))))))
      else Inr False)"

function hull_while_fl ::
    "(real \<Rightarrow> f64) \<Rightarrow> bool \<Rightarrow> real list \<Rightarrow> real list \<Rightarrow> nat \<Rightarrow> hull_state \<Rightarrow> error + hull_state" where
  "hull_while_fl rd up x y i s =
     (case pop_test_fl rd up x y i s of
        Inl e \<Rightarrow> Inl e
      | Inr t \<Rightarrow> if t then hull_while_fl rd up x y i (s\<lparr>nh := nh s - 1\<rparr>) else Inr s)"
  by pat_completeness auto
termination
proof (relation "measure (\<lambda>(rd, up, x, y, i, s). nh s)")
  show "wf (measure (\<lambda>(rd :: real \<Rightarrow> f64, up :: bool, x :: real list, y :: real list, i :: nat, s). nh s))"
    by simp
next
  fix rd :: "real \<Rightarrow> f64" and up :: bool and x y :: "real list" and i :: nat
    and s :: hull_state and t :: bool
  assume "pop_test_fl rd up x y i s = Inr t" and "t"
  then have "2 \<le> nh s"
    by (cases "2 \<le> nh s") (simp_all add: pop_test_fl_def)
  then show "((rd, up, x, y, i, s\<lparr>nh := nh s - 1\<rparr>), (rd, up, x, y, i, s))
               \<in> measure (\<lambda>(rd, up, x, y, i, s). nh s)"
    by simp
qed

function hull_for_fl ::
    "(real \<Rightarrow> f64) \<Rightarrow> bool \<Rightarrow> real list \<Rightarrow> real list \<Rightarrow> nat \<Rightarrow> nat \<Rightarrow> hull_state
       \<Rightarrow> error + hull_state" where
  "hull_for_fl rd up x y n i s =
     (if i < n then
        ebind (hull_while_fl rd up x y i s) (\<lambda>s1.
        ebind (push x y i s1) (\<lambda>s2.
        hull_for_fl rd up x y n (i + 1) s2))
      else Inr s)"
  by pat_completeness auto
termination
  by (relation "measure (\<lambda>(rd, up, x, y, n, i, s). n - i)") auto

declare hull_while_fl.simps [simp del] hull_for_fl.simps [simp del]

definition convex_hull_fl ::
    "(real \<Rightarrow> f64) \<Rightarrow> bool \<Rightarrow> real list \<Rightarrow> real list \<Rightarrow> error + (f64 list \<times> f64 list)" where
  "convex_hull_fl rd up x y =
     (let n = length x in
      if n \<noteq> length y then Inl (ValueError size_mismatch_msg)
      else if n \<le> 2 then Inl (ValueError size_small_msg)
      else
        ebind (hull_init x y n) (\<lambda>s0.
        ebind (hull_for_fl rd up x y n 2 s0) (\<lambda>s.
        Inr (take (nh s) (hullx s), take (nh s) (hully s)))))"

definition upper_convex_hull_fl ::
    "(real \<Rightarrow> f64) \<Rightarrow> real list \<Rightarrow> real list \<Rightarrow> error + (f64 list \<times> f64 list)" where
  "upper_convex_hull_fl rd x y = convex_hull_fl rd True x y"

definition lower_convex_hull_fl ::
    "(real \<Rightarrow> f64) \<Rightarrow> real list \<Rightarrow> real list \<Rightarrow> error + (f64 list \<times> f64 list)" where
  "lower_convex_hull_fl rd x y = convex_hull_fl rd False x y"

fun interp_seg_fl :: "(real \<Rightarrow> f64) \<Rightarrow> f64 \<Rightarrow> (f64 \<times> f64) list \<Rightarrow> f64" where
  "interp_seg_fl rd v [] = NaN"
| "interp_seg_fl rd v [(a, b)] = b"
| "interp_seg_fl rd v ((a, b) # (a', b') # ps) =
     (if flt v a' then
        (if feq a v then b
         else fadd_fl rd (fmul_fl rd (fdiv_np_fl rd (fsub_fl rd b' b) (fsub_fl rd a' a))
                (fsub_fl rd v a)) b)
      else interp_seg_fl rd v ((a', b') # ps))"

definition interp_point_fl :: "(real \<Rightarrow> f64) \<Rightarrow> f64 list \<Rightarrow> f64 list \<Rightarrow> f64 \<Rightarrow> f64" where
  "interp_point_fl rd xp fp v =
     (if v = NaN then NaN
      else if flt v (hd xp) then hd fp
      else if flt (last xp) v then last fp
      else interp_seg_fl rd v (zip xp fp))"

definition np_interp_fl ::
    "(real \<Rightarrow> f64) \<Rightarrow> f64 list \<Rightarrow> f64 list \<Rightarrow> f64 list \<Rightarrow> error + f64 list" where
  "np_interp_fl rd xs xp fp =
     (if xp = [] then Inl (ValueError interp_empty_msg)
      else if length xp \<noteq> length fp then Inl (ValueError interp_size_msg)
      else Inr (map (interp_point_fl rd xp fp) xs))"

definition continuum_removal_fl ::
    "(real \<Rightarrow> f64) \<Rightarrow> real list \<Rightarrow> real list \<Rightarrow> string \<Rightarrow> real \<Rightarrow> real \<Rightarrow> real \<Rightarrow> real
       \<Rightarrow> error + (real list \<times> f64 list \<times> f64 list)" where
  "continuum_removal_fl rd x y continuum_type left_outer_x left_inner_x right_inner_x
       right_outer_x =
     (if continuum_type = ''uh'' then
        (let x_min = left_inner_x; x_max = right_inner_x;
             flag = map (\<lambda>v. x_min \<le> v \<and> v \<le> x_max) x
         in
           ebind (mask_select flag x) (\<lambda>xw.
           ebind (mask_select flag y) (\<lambda>yw.
           ebind (upper_convex_hull_fl rd xw yw) (\<lambda>(hx, hy).
           ebind (np_interp_fl rd (map Fin xw) hx hy) (\<lambda>c.
           Inr (xw, map2 (fdiv_np_fl rd) (map Fin yw) c, c))))))
      else Inl (ValueError unsupported_msg))"

text \<open>
  The rounding of float64. \<open>quantum a\<close> is the spacing of the float64 numbers around a
  positive \<open>a\<close>: \<open>2 ^ (e - 52)\<close> for \<open>2 ^ e \<le> a < 2 ^ (e + 1)\<close>, with \<open>e\<close> not below
  \<open>- 1022\<close> (the subnormal range); \<open>expo_search\<close> finds \<open>e\<close> starting from 0. A value
  is rounded to the nearest multiple of its quantum, a tie to the even multiple, and a
  result of magnitude \<open>2 ^ 1024\<close> or more is an infinity.
\<close>

definition pow2 :: "int \<Rightarrow> real" where
  "pow2 e = (if 0 \<le> e then 2 ^ nat e else 1 / 2 ^ nat (- e))"

definition round_even :: "real \<Rightarrow> int" where
  "round_even v =
     (if v - of_int \<lfloor>v\<rfloor> < 1 / 2 then \<lfloor>v\<rfloor>
      else if 1 / 2 < v - of_int \<lfloor>v\<rfloor> then \<lfloor>v\<rfloor> + 1
      else if even \<lfloor>v\<rfloor> then \<lfloor>v\<rfloor> else \<lfloor>v\<rfloor> + 1)"

fun expo_search :: "nat \<Rightarrow> real \<Rightarrow> int \<Rightarrow> int" where
  "expo_search 0 a e = e"
| "expo_search (Suc n) a e =
     (if a < pow2 e then expo_search n a (e - 1)
      else if pow2 (e + 1) \<le> a then expo_search n a (e + 1)
      else e)"

definition quantum :: "real \<Rightarrow> real" where
  "quantum a = pow2 (max (expo_search 2200 a 0) (- 1022) - 52)"

definition round_to :: "real \<Rightarrow> real \<Rightarrow> real" where
  "round_to q v = of_int (round_even (v / q)) * q"

definition overflow :: "real \<Rightarrow> f64" where
  "overflow r = (if pow2 1024 \<le> \<bar>r\<bar> then (if 0 < r then PInf else NInf) else Fin r)"

definition rne64 :: "real \<Rightarrow> f64" where
  "rne64 v = (if v = 0 then Fin 0 else overflow (round_to (quantum \<bar>v\<bar>) v))"


subsection \<open>Invariants of the hull loops\<close>

text \<open>
  The proofs follow the hull as a stack of input positions, top first: \<open>hull_rel\<close>
  relates the arrays and \<open>nh\<close> to that stack. \<open>under x y a b\<close> says that every
  input point from position \<open>a\<close> to \<open>b\<close> lies on or below the chord from point
  \<open>a\<close> to point \<open>b\<close>, the chord written as \<open>np.interp\<close> evaluates it.
\<close>

definition hull_rel :: "real list \<Rightarrow> real list \<Rightarrow> hull_state \<Rightarrow> nat list \<Rightarrow> bool" where
  "hull_rel x y s st \<longleftrightarrow>
     length (hullx s) = length x \<and> length (hully s) = length x \<and>
     nh s = length st \<and> length st \<le> length x \<and>
     (\<forall>j < length st. hullx s ! j = Fin (x ! (rev st ! j)) \<and>
                       hully s ! j = Fin (y ! (rev st ! j)))"

definition turn_at :: "real list \<Rightarrow> real list \<Rightarrow> nat \<Rightarrow> nat \<Rightarrow> nat \<Rightarrow> bool" where
  "turn_at x y k0 k1 i \<longleftrightarrow>
     (y ! k1 - y ! k0) / (x ! k1 - x ! k0) < (y ! i - y ! k1) / (x ! i - x ! k1)"

definition seg_val :: "real list \<Rightarrow> real list \<Rightarrow> nat \<Rightarrow> nat \<Rightarrow> real \<Rightarrow> real" where
  "seg_val x y a b v = (y ! b - y ! a) / (x ! b - x ! a) * (v - x ! a) + y ! a"

definition under :: "real list \<Rightarrow> real list \<Rightarrow> nat \<Rightarrow> nat \<Rightarrow> bool" where
  "under x y a b \<longleftrightarrow> (\<forall>t \<in> {a..b}. y ! t \<le> seg_val x y a b (x ! t))"

definition covered :: "real list \<Rightarrow> real list \<Rightarrow> nat list \<Rightarrow> bool" where
  "covered x y st \<longleftrightarrow> successively (\<lambda>b a. under x y a b) st"

definition stack_ok :: "nat \<Rightarrow> nat list \<Rightarrow> bool" where
  "stack_ok i st \<longleftrightarrow> st \<noteq> [] \<and> sorted_wrt (>) st \<and> hd st < i \<and> last st = 0"

definition while_inv :: "bool \<Rightarrow> real list \<Rightarrow> real list \<Rightarrow> nat \<Rightarrow> nat list \<Rightarrow> bool" where
  "while_inv up x y i st \<longleftrightarrow>
     stack_ok i st \<and> (up \<longrightarrow> covered x y st \<and> under x y (hd st) i)"

definition for_inv :: "bool \<Rightarrow> real list \<Rightarrow> real list \<Rightarrow> nat \<Rightarrow> nat list \<Rightarrow> bool" where
  "for_inv up x y i st \<longleftrightarrow>
     stack_ok i st \<and> Suc (hd st) = i \<and> (up \<longrightarrow> covered x y st)"

text \<open>
  The window of the pipeline, for stating its properties: the elements of \<open>x\<close> between
  the inner bounds, and the elements of \<open>y\<close> at the same positions.
\<close>

definition window_x :: "real \<Rightarrow> real \<Rightarrow> real list \<Rightarrow> real list" where
  "window_x li ri x = filter (\<lambda>v. li \<le> v \<and> v \<le> ri) x"

definition window_y :: "real \<Rightarrow> real \<Rightarrow> real list \<Rightarrow> real list \<Rightarrow> real list" where
  "window_y li ri x y = map snd (filter (\<lambda>(a, b). li \<le> a \<and> a \<le> ri) (zip x y))"

text \<open>The positions of \<open>x\<close> whose value lies between the inner bounds.\<close>

definition inner_positions :: "real \<Rightarrow> real \<Rightarrow> real list \<Rightarrow> nat list" where
  "inner_positions li ri x = filter (\<lambda>k. li \<le> x ! k \<and> x ! k \<le> ri) [0..<length x]"

text \<open>
  The states the loops pass through: \<open>loop_state up x y i s\<close> holds when control is at
  the test of the while loop in iteration \<open>i\<close> of the for loop with state \<open>s\<close>, or,
  for \<open>i = n\<close>, at the return. The rules are the seeding of the arrays, one pass
  through the body of the while loop, and leaving the while loop and appending point
  \<open>i\<close>.
\<close>

inductive loop_state :: "bool \<Rightarrow> real list \<Rightarrow> real list \<Rightarrow> nat \<Rightarrow> hull_state \<Rightarrow> bool"
  for up :: bool and x y :: "real list" where
  enter: "length x = length y \<Longrightarrow> 2 < length x \<Longrightarrow> hull_init x y (length x) = Inr s \<Longrightarrow>
            loop_state up x y 2 s"
| pop: "loop_state up x y i s \<Longrightarrow> i < length x \<Longrightarrow> pop_test up x y i s = Inr True \<Longrightarrow>
          loop_state up x y i (s\<lparr>nh := nh s - 1\<rparr>)"
| append: "loop_state up x y i s \<Longrightarrow> i < length x \<Longrightarrow> pop_test up x y i s = Inr False \<Longrightarrow>
             push x y i s = Inr s' \<Longrightarrow> loop_state up x y (i + 1) s'"

section \<open>Properties\<close>

lemmas hull_eval_defs =
  upper_convex_hull_def lower_convex_hull_def convex_hull_def hull_init_def aget_def aset_def
  ebind_def pop_test_def push_def left_turn_for_convex_hull_def fdiv_py_def fsub_def fgt_def
  hull_while.simps hull_for.simps

subsection \<open>Chords and slopes\<close>

lemma slope_between:
  fixes xa xb xc ya yb yc :: real
  assumes "xa < xb" "xb < xc"
    and "(yb - ya) / (xb - xa) < (yc - yb) / (xc - xb)"
  shows "(yb - ya) / (xb - xa) < (yc - ya) / (xc - xa)"
    and "(yc - ya) / (xc - xa) < (yc - yb) / (xc - xb)"
proof -
  define p where "p = (yb - ya) / (xb - xa)"
  define q where "q = (yc - yb) / (xc - xb)"
  have p: "yb - ya = p * (xb - xa)" using assms(1) by (simp add: p_def)
  have q: "yc - yb = q * (xc - xb)" using assms(2) by (simp add: q_def)
  have pq: "p < q" using assms(3) by (simp add: p_def q_def)
  have ac: "0 < xc - xa" using assms by simp
  have e: "yc - ya = q * (xc - xb) + p * (xb - xa)" using p q by simp
  have "p * (xc - xa) = p * (xc - xb) + p * (xb - xa)" by (simp add: algebra_simps)
  also have "\<dots> < q * (xc - xb) + p * (xb - xa)" using pq assms(2) by simp
  finally have "p * (xc - xa) < yc - ya" using e by simp
  then show "(yb - ya) / (xb - xa) < (yc - ya) / (xc - xa)"
    using ac by (simp add: p_def pos_less_divide_eq)
  have "yc - ya = q * (xc - xb) + p * (xb - xa)" by (rule e)
  also have "\<dots> < q * (xc - xb) + q * (xb - xa)" using pq assms(1) by simp
  also have "\<dots> = q * (xc - xa)" by (simp add: algebra_simps)
  finally show "(yc - ya) / (xc - xa) < (yc - yb) / (xc - xb)"
    using ac by (simp add: q_def pos_divide_less_eq)
qed

lemma chord_left:
  fixes xa xb xc ya yb yc v w :: real
  assumes "xa < xb" "xb < xc"
    and "(yb - ya) / (xb - xa) < (yc - yb) / (xc - xb)"
    and "xa \<le> v"
    and "w \<le> (yb - ya) / (xb - xa) * (v - xa) + ya"
  shows "w \<le> (yc - ya) / (xc - xa) * (v - xa) + ya"
proof -
  have "(yb - ya) / (xb - xa) * (v - xa) \<le> (yc - ya) / (xc - xa) * (v - xa)"
    using slope_between(1)[OF assms(1,2,3)] assms(4) by (intro mult_right_mono) simp_all
  then show ?thesis using assms(5) by linarith
qed

lemma chord_right:
  fixes xa xb xc ya yb yc v w :: real
  assumes "xa < xb" "xb < xc"
    and "(yb - ya) / (xb - xa) < (yc - yb) / (xc - xb)"
    and "v \<le> xc"
    and "w \<le> (yc - yb) / (xc - xb) * (v - xb) + yb"
  shows "w \<le> (yc - ya) / (xc - xa) * (v - xa) + ya"
proof -
  have bc: "(yc - yb) / (xc - xb) * (v - xb) + yb = yc - (yc - yb) / (xc - xb) * (xc - v)"
    using assms(2) by (simp add: field_simps)
  have ac: "(yc - ya) / (xc - xa) * (v - xa) + ya = yc - (yc - ya) / (xc - xa) * (xc - v)"
    using assms(1,2) by (simp add: field_simps)
  have "(yc - ya) / (xc - xa) * (xc - v) \<le> (yc - yb) / (xc - xb) * (xc - v)"
    using slope_between(2)[OF assms(1,2,3)] assms(4) by (intro mult_right_mono) simp_all
  then show ?thesis using assms(5) bc ac by linarith
qed

lemma fsub_Fin [simp]: "fsub (Fin a) (Fin b) = Fin (a - b)"
  by (simp add: fsub_def)

lemma left_turn_Fin:
  "x1 \<noteq> x2 \<Longrightarrow> x2 \<noteq> x3 \<Longrightarrow>
   left_turn_for_convex_hull (Fin x1) (Fin y1) (Fin x2) (Fin y2) (Fin x3) (Fin y3)
     = Inr ((y2 - y1) / (x2 - x1) < (y3 - y2) / (x3 - x2))"
  by (simp add: left_turn_for_convex_hull_def fdiv_py_def ebind_def fgt_def)

subsection \<open>The arrays and the stack of positions\<close>

lemma hull_rel_length: "hull_rel x y s st \<Longrightarrow> length st \<le> length x"
  by (simp add: hull_rel_def)

lemma hull_rel_nth:
  assumes "hull_rel x y s st" and "j < length st"
  shows "hullx s ! j = Fin (x ! (rev st ! j))" and "hully s ! j = Fin (y ! (rev st ! j))"
  using assms by (simp_all add: hull_rel_def)

lemma hull_rel_takes:
  assumes "hull_rel x y s st"
  shows "take (nh s) (hullx s) = map (\<lambda>k. Fin (x ! k)) (rev st)"
    and "take (nh s) (hully s) = map (\<lambda>k. Fin (y ! k)) (rev st)"
proof -
  have n: "nh s = length st" "length st \<le> length (hullx s)" "length st \<le> length (hully s)"
    using assms by (simp_all add: hull_rel_def)
  show "take (nh s) (hullx s) = map (\<lambda>k. Fin (x ! k)) (rev st)"
    using n hull_rel_nth(1)[OF assms] by (intro nth_equalityI) simp_all
  show "take (nh s) (hully s) = map (\<lambda>k. Fin (y ! k)) (rev st)"
    using n hull_rel_nth(2)[OF assms] by (intro nth_equalityI) simp_all
qed

lemma pop_test_short:
  "hull_rel x y s [k] \<Longrightarrow> pop_test up x y i s = Inr False"
  by (simp add: pop_test_def hull_rel_def)

lemma pop_test_rel:
  assumes r: "hull_rel x y s (k1 # k0 # rest)"
    and len: "length y = length x" and i: "i < length x"
    and d1: "x ! k0 \<noteq> x ! k1" and d2: "x ! k1 \<noteq> x ! i"
  shows "pop_test up x y i s = Inr (if up then turn_at x y k0 k1 i else \<not> turn_at x y k0 k1 i)"
proof -
  let ?m = "length rest"
  have nh: "nh s = ?m + 2" using r by (simp add: hull_rel_def)
  have le: "?m + 2 \<le> length x" using hull_rel_length[OF r] by simp
  have lx: "length (hullx s) = length x" "length (hully s) = length x"
    using r by (simp_all add: hull_rel_def)
  have a: "hullx s ! ?m = Fin (x ! k0)" "hully s ! ?m = Fin (y ! k0)"
    using hull_rel_nth[OF r, of ?m] by (simp_all add: nth_append)
  have b: "hullx s ! (?m + 1) = Fin (x ! k1)" "hully s ! (?m + 1) = Fin (y ! k1)"
    using hull_rel_nth[OF r, of "?m + 1"] by (simp_all add: nth_append)
  show ?thesis
    using le lx a b i len d1 d2
    by (simp add: pop_test_def nh aget_def ebind_def left_turn_Fin turn_at_def)
qed

lemma hull_rel_pop:
  assumes "hull_rel x y s (k1 # k0 # rest)"
  shows "hull_rel x y (s\<lparr>nh := nh s - 1\<rparr>) (k0 # rest)"
  using assms by (simp add: hull_rel_def nth_append)

lemma push_rel:
  assumes r: "hull_rel x y s st" and len: "length y = length x" and i: "i < length x"
    and room: "length st < length x"
  shows "\<exists>s'. push x y i s = Inr s' \<and> hull_rel x y s' (i # st)"
  using assms
  by (simp add: push_def aget_def aset_def ebind_def hull_rel_def nth_append nth_list_update)

subsection \<open>The loops preserve the invariants\<close>

lemma incr_nth_less:
  "sorted_wrt (<) (x :: real list) \<Longrightarrow> a < b \<Longrightarrow> b < length x \<Longrightarrow> x ! a < x ! b"
  by (simp add: sorted_wrt_nth_less)

lemma incr_nth_le:
  "sorted_wrt (<) (x :: real list) \<Longrightarrow> a \<le> b \<Longrightarrow> b < length x \<Longrightarrow> x ! a \<le> x ! b"
  using incr_nth_less[of x a b] by (cases "a = b") simp_all

lemma under_pop:
  assumes inc: "sorted_wrt (<) x" and i: "i < length x"
    and ord: "k0 < k1" "k1 < i"
    and turn: "turn_at x y k0 k1 i"
    and u1: "under x y k0 k1" and u2: "under x y k1 i"
  shows "under x y k0 i"
  unfolding under_def
proof
  fix t assume t: "t \<in> {k0..i}"
  have x01: "x ! k0 < x ! k1" and x1i: "x ! k1 < x ! i"
    using inc ord i by (simp_all add: incr_nth_less)
  have tr: "(y ! k1 - y ! k0) / (x ! k1 - x ! k0) < (y ! i - y ! k1) / (x ! i - x ! k1)"
    using turn by (simp add: turn_at_def)
  show "y ! t \<le> seg_val x y k0 i (x ! t)"
  proof (cases "t \<le> k1")
    case True
    then have "y ! t \<le> seg_val x y k0 k1 (x ! t)" using u1 t by (simp add: under_def)
    moreover have "x ! k0 \<le> x ! t" using inc t i by (intro incr_nth_le) simp_all
    ultimately show ?thesis
      unfolding seg_val_def using chord_left[OF x01 x1i tr] by blast
  next
    case False
    then have "y ! t \<le> seg_val x y k1 i (x ! t)" using u2 t by (simp add: under_def)
    moreover have "x ! t \<le> x ! i" using inc t i by (intro incr_nth_le) simp_all
    ultimately show ?thesis
      unfolding seg_val_def using chord_right[OF x01 x1i tr] by blast
  qed
qed

lemma under_adjacent:
  assumes inc: "sorted_wrt (<) x" and i: "Suc k < length x"
  shows "under x y k (Suc k)"
  unfolding under_def
proof
  fix t assume "t \<in> {k..Suc k}"
  then have "t = k \<or> t = Suc k" by auto
  moreover have "x ! k < x ! Suc k" using inc i by (simp add: incr_nth_less)
  ultimately show "y ! t \<le> seg_val x y k (Suc k) (x ! t)"
    by (auto simp: seg_val_def)
qed

lemma while_inv_pop:
  assumes inc: "sorted_wrt (<) x" and i: "i < length x"
    and w: "while_inv up x y i (k1 # k0 # rest)"
    and turn: "up \<Longrightarrow> turn_at x y k0 k1 i"
  shows "while_inv up x y i (k0 # rest)"
proof -
  have ok: "stack_ok i (k1 # k0 # rest)" using w by (simp add: while_inv_def)
  then have ord: "k0 < k1" "k1 < i" by (simp_all add: stack_ok_def)
  have ok': "stack_ok i (k0 # rest)" using ok by (auto simp: stack_ok_def)
  show ?thesis
  proof (cases up)
    case False
    then show ?thesis using ok' by (simp add: while_inv_def)
  next
    case True
    then have c: "covered x y (k0 # rest)" "under x y k0 k1" "under x y k1 i"
      using w by (simp_all add: while_inv_def covered_def)
    have "under x y k0 i" using under_pop[OF inc i ord turn[OF True] c(2,3)] .
    then show ?thesis using ok' c(1) by (simp add: while_inv_def)
  qed
qed

lemma stack_distinct_x:
  fixes x :: "real list"
  assumes inc: "sorted_wrt (<) x" and i: "i < length x" and ok: "stack_ok i (k1 # k0 # rest)"
  shows "x ! k0 \<noteq> x ! k1" and "x ! k1 \<noteq> x ! i"
proof -
  have ord: "k0 < k1" "k1 < i" using ok by (simp_all add: stack_ok_def)
  show "x ! k0 \<noteq> x ! k1" using incr_nth_less[OF inc ord(1)] ord i by simp
  show "x ! k1 \<noteq> x ! i" using incr_nth_less[OF inc ord(2) i] by simp
qed

lemma hull_while_inv:
  assumes inc: "sorted_wrt (<) x" and len: "length y = length x" and i: "i < length x"
  shows "hull_rel x y s st \<Longrightarrow> while_inv up x y i st \<Longrightarrow>
         \<exists>s' st'. hull_while up x y i s = Inr s' \<and> hull_rel x y s' st' \<and> while_inv up x y i st'"
proof (induction st arbitrary: s)
  case Nil
  then show ?case by (simp add: while_inv_def stack_ok_def)
next
  case (Cons k1 st1)
  show ?case
  proof (cases st1)
    case Nil
    then have "pop_test up x y i s = Inr False" using Cons.prems(1) pop_test_short by blast
    then have "hull_while up x y i s = Inr s" by (simp add: hull_while.simps)
    then show ?thesis using Cons.prems by blast
  next
    case (Cons k0 rest)
    note r = Cons.prems(1)[unfolded Cons]
    note w = Cons.prems(2)[unfolded Cons]
    have ok: "stack_ok i (k1 # k0 # rest)" using w by (simp add: while_inv_def)
    have pt: "pop_test up x y i s
                = Inr (if up then turn_at x y k0 k1 i else \<not> turn_at x y k0 k1 i)"
      using pop_test_rel[OF r len i stack_distinct_x[OF inc i ok]] .
    show ?thesis
    proof (cases "if up then turn_at x y k0 k1 i else \<not> turn_at x y k0 k1 i")
      case False
      then have "hull_while up x y i s = Inr s" using pt by (simp add: hull_while.simps)
      then show ?thesis using Cons.prems by blast
    next
      case True
      then have e: "hull_while up x y i s = hull_while up x y i (s\<lparr>nh := nh s - 1\<rparr>)"
        using pt by (subst hull_while.simps) simp
      have r': "hull_rel x y (s\<lparr>nh := nh s - 1\<rparr>) st1"
        unfolding Cons using hull_rel_pop[OF r] .
      have w': "while_inv up x y i st1"
        unfolding Cons using while_inv_pop[OF inc i w] True by simp
      show ?thesis using Cons.IH[OF r' w'] e by simp
    qed
  qed
qed

lemma stack_length_le: "sorted_wrt (>) (st :: nat list) \<Longrightarrow> st \<noteq> [] \<Longrightarrow> length st \<le> Suc (hd st)"
proof (induction st)
  case Nil
  then show ?case by simp
next
  case (Cons k st)
  show ?case
  proof (cases st)
    case Nil
    then show ?thesis by simp
  next
    case (Cons k' rest)
    then have "length st \<le> Suc (hd st)" and "hd st < k"
      using Cons.IH Cons.prems by simp_all
    then show ?thesis by simp
  qed
qed

lemma stack_ok_push:
  assumes "stack_ok i st"
  shows "stack_ok (Suc i) (i # st)"
proof -
  have ne: "st \<noteq> []" and so: "sorted_wrt (>) st" and hd: "hd st < i" and la: "last st = 0"
    using assms by (simp_all add: stack_ok_def)
  have "\<forall>k \<in> set st. k < i"
  proof
    fix k assume k: "k \<in> set st"
    obtain a rest where st: "st = a # rest" using ne by (cases st) simp_all
    show "k < i" using k so hd unfolding st by auto
  qed
  then show ?thesis using ne so la by (auto simp: stack_ok_def)
qed

lemma for_inv_step:
  assumes inc: "sorted_wrt (<) x" and i: "i < length x"and w: "while_inv up x y i st"
  shows "for_inv up x y (Suc i) (i # st)"
proof -
  have ok: "stack_ok i st" using w by (simp add: while_inv_def)
  obtain a rest where st: "st = a # rest" using ok by (cases st) (simp_all add: stack_ok_def)
  show ?thesis
    using stack_ok_push[OF ok] w unfolding st
    by (simp add: for_inv_def while_inv_def covered_def)
qed

lemma for_inv_while:
  assumes inc: "sorted_wrt (<) x" and i: "i < length x" and f: "for_inv up x y i st"
  shows "while_inv up x y i st"
proof -
  have ok: "stack_ok i st" and hd: "Suc (hd st) = i" using f by (simp_all add: for_inv_def)
  have "under x y (hd st) i" using under_adjacent[OF inc, of "hd st" y] i hd by simp
  then show ?thesis using f by (simp add: for_inv_def while_inv_def)
qed

lemma hull_for_inv:
  assumes inc: "sorted_wrt (<) x" and len: "length y = length x"
  shows "hull_rel x y s st \<Longrightarrow> for_inv up x y i st \<Longrightarrow> i \<le> length x \<Longrightarrow>
         \<exists>s' st'. hull_for up x y (length x) i s = Inr s' \<and> hull_rel x y s' st' \<and>
                  for_inv up x y (length x) st'"
proof (induction "length x - i" arbitrary: i s st)
  case 0
  then have "i = length x" by simp
  then show ?case using "0.prems" by (subst hull_for.simps) auto
next
  case (Suc d)
  then have i: "i < length x" by simp
  obtain s1 st1 where w: "hull_while up x y i s = Inr s1" "hull_rel x y s1 st1"
      "while_inv up x y i st1"
    using hull_while_inv[OF inc len i Suc.prems(1) for_inv_while[OF inc i Suc.prems(2)]] by blast
  have ok: "stack_ok i st1" using w(3) by (simp add: while_inv_def)
  then have "length st1 \<le> Suc (hd st1)" and "hd st1 < i"
    using stack_length_le[of st1] by (simp_all add: stack_ok_def)
  then have room: "length st1 < length x" using i by simp
  obtain s2 where p: "push x y i s1 = Inr s2" "hull_rel x y s2 (i # st1)"
    using push_rel[OF w(2) len i room] by blast
  have f: "for_inv up x y (Suc i) (i # st1)" using for_inv_step[OF inc i w(3)] .
  have d: "d = length x - Suc i" using Suc.hyps(2) by simp
  have "\<exists>s' st'. hull_for up x y (length x) (Suc i) s2 = Inr s' \<and> hull_rel x y s' st' \<and>
                  for_inv up x y (length x) st'"
    using Suc.hyps(1)[OF d p(2) f] i by simp
  moreover have "hull_for up x y (length x) i s = hull_for up x y (length x) (Suc i) s2"
    using i w(1) p(1) by (subst hull_for.simps) (simp add: ebind_def)
  ultimately show ?case by simp
qed

lemma hull_init_rel:
  assumes "2 < length x" and "length y = length x"
  shows "\<exists>s0. hull_init x y (length x) = Inr s0 \<and> hull_rel x y s0 [1, 0]"
  using assms
  by (auto simp add: hull_init_def aget_def aset_def ebind_def hull_rel_def nth_list_update
      less_Suc_eq)

lemma for_inv_init:
  assumes "sorted_wrt (<) x" and "2 < length x"
  shows "for_inv up x y 2 [1, 0]"
  using under_adjacent[OF assms(1), of 0 y] assms(2)
  by (simp add: for_inv_def stack_ok_def covered_def)

lemma convex_hull_stack:
  assumes inc: "sorted_wrt (<) x" and len: "length y = length x" and n: "2 < length x"
  shows "\<exists>st. convex_hull up x y
                 = Inr (map (\<lambda>k. Fin (x ! k)) (rev st), map (\<lambda>k. Fin (y ! k)) (rev st))
              \<and> for_inv up x y (length x) st"
proof -
  obtain s0 where s0: "hull_init x y (length x) = Inr s0" "hull_rel x y s0 [1, 0]"
    using hull_init_rel[OF n len] by blast
  obtain s st where s: "hull_for up x y (length x) 2 s0 = Inr s" "hull_rel x y s st"
      "for_inv up x y (length x) st"
    using hull_for_inv[OF inc len s0(2) for_inv_init[OF inc n, of up y]] n by auto
  have "convex_hull up x y = Inr (take (nh s) (hullx s), take (nh s) (hully s))"
    using n len s0(1) s(1) by (simp add: convex_hull_def ebind_def)
  then show ?thesis using hull_rel_takes[OF s(2)] s(3) by auto
qed

subsection \<open>The result of the builders\<close>

lemma for_inv_ends:
  assumes "for_inv up x y n st" and "2 < n"
  shows "st \<noteq> []" and "hd (rev st) = 0" and "last (rev st) = n - 1" and "2 \<le> length st"
    and "sorted_wrt (<) (rev st)" and "\<forall>k \<in> set st. k < n"
proof -
  have ne: "st \<noteq> []" and so: "sorted_wrt (>) st" and hd: "Suc (hd st) = n" and la: "last st = 0"
    using assms(1) by (simp_all add: for_inv_def stack_ok_def)
  show "st \<noteq> []" by (rule ne)
  show "hd (rev st) = 0" using ne la by (simp add: hd_rev)
  show "last (rev st) = n - 1" using ne hd by (simp add: last_rev)
  show "2 \<le> length st"
  proof (cases st)
    case Nil
    then show ?thesis using ne by simp
  next
    case (Cons a rest)
    then have "rest \<noteq> []" using la hd assms(2) by auto
    then show ?thesis using Cons by (cases rest) simp_all
  qed
  show "sorted_wrt (<) (rev st)" using so by (simp add: sorted_wrt_rev)
  obtain a rest where st: "st = a # rest" using ne by (cases st) simp_all
  show "\<forall>k \<in> set st. k < n" using so hd unfolding st by auto
qed


lemma convex_hull_positions:
  assumes len: "length x = length y" and n: "2 < length x" and inc: "sorted_wrt (<) x"
  shows "\<exists>ks. sorted_wrt (<) ks \<and> (\<forall>k \<in> set ks. k < length x) \<and>
              sorted_wrt (<) (map (\<lambda>k. x ! k) ks) \<and>
              hd ks = 0 \<and> last ks = length x - 1 \<and> 2 \<le> length ks \<and>
              (up \<longrightarrow> successively (under x y) ks) \<and>
              convex_hull up x y = Inr (map (\<lambda>k. Fin (x ! k)) ks, map (\<lambda>k. Fin (y ! k)) ks)"
proof -
  obtain st where st: "convex_hull up x y
        = Inr (map (\<lambda>k. Fin (x ! k)) (rev st), map (\<lambda>k. Fin (y ! k)) (rev st))"
      "for_inv up x y (length x) st"
    using convex_hull_stack[OF inc len[symmetric] n] by blast
  note e = for_inv_ends[OF st(2) n]
  have "sorted_wrt (\<lambda>a b. x ! a < x ! b) (rev st)"
    using e(5)
  proof (rule sorted_wrt_mono_rel[rotated])
    fix a b assume "a \<in> set (rev st)" "b \<in> set (rev st)" "a < b"
    then show "x ! a < x ! b" using e(6) inc by (simp add: incr_nth_less)
  qed
  then have "sorted_wrt (<) (map (\<lambda>k. x ! k) (rev st))" by (simp add: sorted_wrt_map)
  moreover have "up \<longrightarrow> successively (under x y) (rev st)"
    using st(2) by (simp add: for_inv_def covered_def)
  ultimately show ?thesis using e st(1) by (intro exI[of _ "rev st"]) simp
qed

subsection \<open>The hull is a subsequence of the input\<close>

text \<open>
  C4: for every valid input (equal lengths, length greater than 2, \<open>x\<close> strictly
  increasing) the hull returned by the upper and by the lower builder consists of the
  input points at a strictly increasing list \<open>ks\<close> of positions, and its x values are
  strictly increasing.
\<close>
theorem hull_subsequence:
  assumes "length x = length y" and "2 < length x" and "sorted_wrt (<) x"
  shows "(\<exists>ks. sorted_wrt (<) ks \<and> (\<forall>k \<in> set ks. k < length x) \<and>
               sorted_wrt (<) (map (\<lambda>k. x ! k) ks) \<and>
               upper_convex_hull x y
                 = Inr (map (\<lambda>k. Fin (x ! k)) ks, map (\<lambda>k. Fin (y ! k)) ks))
       \<and> (\<exists>ks. sorted_wrt (<) ks \<and> (\<forall>k \<in> set ks. k < length x) \<and>
               sorted_wrt (<) (map (\<lambda>k. x ! k) ks) \<and>
               lower_convex_hull x y
                 = Inr (map (\<lambda>k. Fin (x ! k)) ks, map (\<lambda>k. Fin (y ! k)) ks))"
  using convex_hull_positions[OF assms, of True] convex_hull_positions[OF assms, of False]
  unfolding upper_convex_hull_def lower_convex_hull_def by blast

theorem hull_subsequence_witness:
  "length [0, 1, 2, 3, 4 :: real] = length [0, 2, 1, 2, 0 :: real] \<and>
   2 < length [0, 1, 2, 3, 4 :: real] \<and> sorted_wrt (<) [0, 1, 2, 3, 4 :: real] \<and>
   (\<exists>ks. sorted_wrt (<) ks \<and> (\<forall>k \<in> set ks. k < length [0, 1, 2, 3, 4 :: real]) \<and>
               sorted_wrt (<) (map (\<lambda>k. [0, 1, 2, 3, 4 :: real] ! k) ks) \<and>
               upper_convex_hull [0, 1, 2, 3, 4] [0, 2, 1, 2, 0]
                 = Inr (map (\<lambda>k. Fin ([0, 1, 2, 3, 4] ! k)) ks,
                        map (\<lambda>k. Fin ([0, 2, 1, 2, 0] ! k)) ks))"
  using hull_subsequence[of "[0, 1, 2, 3, 4]" "[0, 2, 1, 2, 0]"] by simp

subsection \<open>The hull spans the whole window\<close>

text \<open>
  C9: for every valid input the first point of the upper hull is the first input point
  and its last point is the last input point, so no x of the input lies to the left of
  the first or to the right of the last hull x: interpolating the hull at the input's
  own x values never leaves the hull's extent.
\<close>
theorem hull_endpoints:
  assumes "length x = length y" and "2 < length x" and "sorted_wrt (<) x"
  shows "\<exists>hx hy. upper_convex_hull x y = Inr (hx, hy) \<and> hx \<noteq> [] \<and> length hy = length hx \<and>
           hd hx = Fin (x ! 0) \<and> hd hy = Fin (y ! 0) \<and>
           last hx = Fin (x ! (length x - 1)) \<and> last hy = Fin (y ! (length x - 1)) \<and>
           (\<forall>v \<in> set x. \<not> flt (Fin v) (hd hx) \<and> \<not> flt (last hx) (Fin v))"
proof -
  obtain ks where ks: "hd ks = 0" "last ks = length x - 1" "2 \<le> length ks"
      "upper_convex_hull x y = Inr (map (\<lambda>k. Fin (x ! k)) ks, map (\<lambda>k. Fin (y ! k)) ks)"
    using convex_hull_positions[OF assms, of True] unfolding upper_convex_hull_def by blast
  have ne: "ks \<noteq> []" using ks(3) by auto
  have ext: "\<forall>v \<in> set x. x ! 0 \<le> v \<and> v \<le> x ! (length x - 1)"
  proof
    fix v assume "v \<in> set x"
    then obtain t where t: "t < length x" "v = x ! t" by (auto simp: in_set_conv_nth)
    show "x ! 0 \<le> v \<and> v \<le> x ! (length x - 1)"
      using incr_nth_le[OF assms(3), of 0 t] incr_nth_le[OF assms(3), of t "length x - 1"] t
      by simp
  qed
  show ?thesis
    using ks(4) ne ks(1,2) ext
    by (simp add: hd_map last_map not_less)
qed

theorem hull_endpoints_witness:
  "length [0, 1, 2, 3, 4 :: real] = length [0, 2, 1, 2, 0 :: real] \<and>
   2 < length [0, 1, 2, 3, 4 :: real] \<and> sorted_wrt (<) [0, 1, 2, 3, 4 :: real] \<and>
   (\<exists>hx hy. upper_convex_hull [0, 1, 2, 3, 4] [0, 2, 1, 2, 0] = Inr (hx, hy) \<and> hx \<noteq> [] \<and>
           length hy = length hx \<and>
           hd hx = Fin 0 \<and> hd hy = Fin 0 \<and> last hx = Fin 4 \<and> last hy = Fin 0)"
  using hull_endpoints[of "[0, 1, 2, 3, 4]" "[0, 2, 1, 2, 0]"] by simp blast

subsection \<open>Scenario A\<close>

text \<open>
  C3: on \<open>x = [0,1,2,3,4]\<close>, \<open>y = [0,2,1,2,0]\<close> the upper hull builder returns exactly
  hull x \<open>[0,1,3,4]\<close> and hull y \<open>[0,2,2,0]\<close>.
\<close>

theorem scenario_A_upper_hull:
  "upper_convex_hull [0, 1, 2, 3, 4] [0, 2, 1, 2, 0]
     = Inr ([Fin 0, Fin 1, Fin 3, Fin 4], [Fin 0, Fin 2, Fin 2, Fin 0])"
  by (simp add: hull_eval_defs)

subsection \<open>The continuum lies above the spectrum\<close>


lemma mask_select_x:
  "mask_select (map P x) x = Inr (filter P x)"
proof -
  have "map snd (filter fst (zip (map P x) x)) = filter P x"
    by (induction x) simp_all
  then show ?thesis by (simp add: mask_select_def)
qed

lemma mask_select_y:
  assumes "length x = length y"
  shows "mask_select (map P x) y = Inr (map snd (filter (\<lambda>(a, b). P a) (zip x y)))"
proof -
  have "map snd (filter fst (zip (map P x) y)) = map snd (filter (\<lambda>(a, b). P a) (zip x y))"
    using assms by (induction x y rule: list_induct2) simp_all
  then show ?thesis using assms by (simp add: mask_select_def)
qed

lemma window_lengths:
  assumes "length x = length y"
  shows "length (map snd (filter (\<lambda>(a, b). P a) (zip x y))) = length (filter P x)"
  using assms by (induction x y rule: list_induct2) simp_all


lemma continuum_removal_uh:
  assumes "length x = length y"
  shows "continuum_removal x y ''uh'' lo li ri ro =
           ebind (upper_convex_hull (window_x li ri x) (window_y li ri x y)) (\<lambda>(hx, hy).
           ebind (np_interp (map Fin (window_x li ri x)) hx hy) (\<lambda>c.
           Inr (window_x li ri x, map2 fdiv_np (map Fin (window_y li ri x y)) c, c)))"
  unfolding continuum_removal_def window_x_def window_y_def Let_def mask_select_x
    mask_select_y[OF assms, of "\<lambda>v. li \<le> v \<and> v \<le> ri"]
  by (simp only: ebind_def sum.case if_True simp_thms)



subsection \<open>Scenario B\<close>

text \<open>
  C8: on \<open>x = [0,1,2,3,4]\<close>, \<open>y = [0,2,1,2,0]\<close> with type \<open>uh\<close>, inner bounds 0 and
  4 and any outer bounds, the continuum at \<open>x = 2\<close> (the third entry) is 2 and the ratio
  there is 1/2.
\<close>

theorem scenario_B_value:
  "continuum_removal [0, 1, 2, 3, 4] [0, 2, 1, 2, 0] ''uh'' lo 0 4 ro
     = Inr ([0, 1, 2, 3, 4], [NaN, Fin 1, Fin (1 / 2), Fin 1, NaN],
            [Fin 0, Fin 2, Fin 2, Fin 2, Fin 0])"
  by (simp add: continuum_removal_def mask_select_def hull_eval_defs np_interp_def
      interp_point_def feq_def inf_of_def)

subsection \<open>Failures of the builders\<close>

lemma left_turn_Fin_cases:
  "left_turn_for_convex_hull (Fin x1) (Fin y1) (Fin x2) (Fin y2) (Fin x3) (Fin y3)
     = (if x2 = x1 \<or> x3 = x2 then Inl ZeroDivisionError
        else Inr ((y2 - y1) / (x2 - x1) < (y3 - y2) / (x3 - x2)))"
  by (simp add: left_turn_for_convex_hull_def fdiv_py_def ebind_def fgt_def)

lemma pop_test_cases:
  assumes r: "hull_rel x y s st" and len: "length y = length x" and i: "i < length x"
  shows "pop_test up x y i s = Inl ZeroDivisionError \<or> (\<exists>b. pop_test up x y i s = Inr b)"
proof (cases "2 \<le> length st")
  case False
  then have "\<not> 2 \<le> nh s" using r by (simp add: hull_rel_def)
  then show ?thesis by (auto simp: pop_test_def)
next
  case True
  then obtain k1 k0 rest where st: "st = k1 # k0 # rest"
    by (cases st; cases "tl st") auto
  note r' = r[unfolded st]
  let ?m = "length rest"
  have nh: "nh s = ?m + 2" using r' by (simp add: hull_rel_def)
  have le: "?m + 2 \<le> length x" using hull_rel_length[OF r'] by simp
  have lx: "length (hullx s) = length x" "length (hully s) = length x"
    using r' by (simp_all add: hull_rel_def)
  have a: "hullx s ! ?m = Fin (x ! k0)" "hully s ! ?m = Fin (y ! k0)"
    using hull_rel_nth[OF r', of ?m] by (simp_all add: nth_append)
  have b: "hullx s ! (?m + 1) = Fin (x ! k1)" "hully s ! (?m + 1) = Fin (y ! k1)"
    using hull_rel_nth[OF r', of "?m + 1"] by (simp_all add: nth_append)
  show ?thesis
    using le lx a b i len
    by (simp add: pop_test_def nh aget_def ebind_def left_turn_Fin_cases)
qed

lemma pop_test_True_stack:
  assumes "hull_rel x y s st" and "pop_test up x y i s = Inr True"
  shows "\<exists>k1 k0 rest. st = k1 # k0 # rest"
proof -
  have "2 \<le> nh s" using assms(2) by (cases "2 \<le> nh s") (simp_all add: pop_test_def)
  then have "2 \<le> length st" using assms(1) by (simp add: hull_rel_def)
  then show ?thesis by (cases st; cases "tl st") auto
qed

lemma stack_ok_pop: "stack_ok i (k1 # k0 # rest) \<Longrightarrow> stack_ok i (k0 # rest)"
  by (auto simp: stack_ok_def)

lemma stack_room:
  assumes "stack_ok i st" and "i < n"
  shows "length st < n" and "1 \<le> length st" and "length st \<le> i"
proof -
  have "length st \<le> Suc (hd st)" and "hd st < i" and "st \<noteq> []"
    using assms(1) stack_length_le[of st] by (simp_all add: stack_ok_def)
  then show "length st < n" and "1 \<le> length st" and "length st \<le> i"
    using assms(2) by (simp_all add: Suc_leI)
qed

lemma hull_while_total:
  assumes len: "length y = length x" and i: "i < length x"
  shows "hull_rel x y s st \<Longrightarrow> stack_ok i st \<Longrightarrow>
         hull_while up x y i s = Inl ZeroDivisionError \<or>
         (\<exists>s' st'. hull_while up x y i s = Inr s' \<and> hull_rel x y s' st' \<and> stack_ok i st')"
proof (induction st arbitrary: s)
  case Nil
  then show ?case by (simp add: stack_ok_def)
next
  case (Cons k1 st1)
  consider "pop_test up x y i s = Inl ZeroDivisionError" | "pop_test up x y i s = Inr False"
    | "pop_test up x y i s = Inr True"
    using pop_test_cases[OF Cons.prems(1) len i, of up] by (metis (full_types))
  then show ?case
  proof cases
    case 1
    then show ?thesis by (subst hull_while.simps) simp
  next
    case 2
    then have "hull_while up x y i s = Inr s" by (subst hull_while.simps) simp
    then show ?thesis using Cons.prems by blast
  next
    case 3
    then obtain k0 rest where st1: "st1 = k0 # rest"
      using pop_test_True_stack[OF Cons.prems(1) 3] by auto
    have e: "hull_while up x y i s = hull_while up x y i (s\<lparr>nh := nh s - 1\<rparr>)"
      using 3 by (subst hull_while.simps) simp
    have "hull_rel x y (s\<lparr>nh := nh s - 1\<rparr>) st1"
      using hull_rel_pop Cons.prems(1) unfolding st1 by blast
    moreover have "stack_ok i st1" using stack_ok_pop Cons.prems(2) unfolding st1 by blast
    ultimately show ?thesis using Cons.IH e by simp
  qed
qed

lemma hull_for_total:
  assumes len: "length y = length x"
  shows "hull_rel x y s st \<Longrightarrow> stack_ok i st \<Longrightarrow> i \<le> length x \<Longrightarrow>
         hull_for up x y (length x) i s = Inl ZeroDivisionError \<or>
         (\<exists>s' st'. hull_for up x y (length x) i s = Inr s' \<and> hull_rel x y s' st')"
proof (induction "length x - i" arbitrary: i s st)
  case 0
  then have "i = length x" by simp
  then show ?case using "0.prems" by (subst hull_for.simps) auto
next
  case (Suc d)
  then have i: "i < length x" by simp
  have d: "d = length x - Suc i" using Suc.hyps(2) by simp
  consider "hull_while up x y i s = Inl ZeroDivisionError"
    | s1 st1 where "hull_while up x y i s = Inr s1" "hull_rel x y s1 st1" "stack_ok i st1"
    using hull_while_total[OF len i Suc.prems(1,2), of up] by blast
  then show ?case
  proof cases
    case 1
    then show ?thesis using i by (subst hull_for.simps) (simp add: ebind_def)
  next
    case 2
    obtain s2 where p: "push x y i s1 = Inr s2" "hull_rel x y s2 (i # st1)"
      using push_rel[OF 2(2) len i stack_room(1)[OF 2(3) i]] by blast
    have e: "hull_for up x y (length x) i s = hull_for up x y (length x) (Suc i) s2"
      using i 2(1) p(1) by (subst hull_for.simps) (simp add: ebind_def)
    show ?thesis
      using Suc.hyps(1)[OF d p(2) stack_ok_push[OF 2(3)]] i unfolding e by simp
  qed
qed

lemma convex_hull_results:
  "convex_hull up x y = Inl (ValueError size_mismatch_msg) \<and> length x \<noteq> length y \<or>
   convex_hull up x y = Inl (ValueError size_small_msg) \<and> length x = length y \<and> length x \<le> 2 \<or>
   convex_hull up x y = Inl ZeroDivisionError \<and> length x = length y \<and> 2 < length x \<or>
   (\<exists>h. convex_hull up x y = Inr h) \<and> length x = length y \<and> 2 < length x"
proof (cases "length x = length y \<and> 2 < length x")
  case False
  then show ?thesis by (cases "length x = length y") (simp_all add: convex_hull_def Let_def)
next
  case True
  then have len: "length y = length x" and n: "2 < length x" by simp_all
  obtain s0 where s0: "hull_init x y (length x) = Inr s0" "hull_rel x y s0 [1, 0]"
    using hull_init_rel[OF n len] by blast
  have ok: "stack_ok 2 [1, 0]" by (simp add: stack_ok_def)
  consider "hull_for up x y (length x) 2 s0 = Inl ZeroDivisionError"
    | s where "hull_for up x y (length x) 2 s0 = Inr s"
    using hull_for_total[OF len s0(2) ok, of up] n by auto
  then show ?thesis
    using True s0(1) by cases (simp_all add: convex_hull_def Let_def ebind_def)
qed


lemma msgs_distinct:
  "size_mismatch_msg \<noteq> size_small_msg" "unsupported_msg \<noteq> size_mismatch_msg"
  "unsupported_msg \<noteq> size_small_msg" "unsupported_msg \<noteq> interp_empty_msg"
  "unsupported_msg \<noteq> interp_size_msg"
  by (simp_all add: size_mismatch_msg_def size_small_msg_def unsupported_msg_def
      interp_empty_msg_def interp_size_msg_def)

text \<open>
  C6 as stated fails: the builder also fails on equal lengths greater than 2 when a
  difference of x values in the turn predicate is zero.
\<close>

theorem duplicate_x_counterexample:
  "upper_convex_hull [0, 0, 1] [0, 0, 0] = Inl ZeroDivisionError \<and>
   length [0, 0, 1 :: real] = length [0, 0, 0 :: real] \<and> \<not> length [0, 0, 1 :: real] \<le> 2"
  by (simp add: hull_eval_defs)

text \<open>
  C6, amended: for every pair of sequences the upper hull builder raises the
  length-mismatch error exactly when the lengths differ and the size error exactly when
  the lengths are equal and at most 2; the two are told apart by their messages; the only
  other failure is \<open>ZeroDivisionError\<close>, and it does not occur when \<open>x\<close> is strictly
  increasing.
\<close>

theorem hull_builder_errors:
  "(upper_convex_hull x y = Inl (ValueError size_mismatch_msg) \<longleftrightarrow> length x \<noteq> length y) \<and>
   (upper_convex_hull x y = Inl (ValueError size_small_msg)
      \<longleftrightarrow> length x = length y \<and> length x \<le> 2) \<and>
   size_mismatch_msg \<noteq> size_small_msg \<and>
   (\<forall>e. upper_convex_hull x y = Inl e \<longrightarrow>
        e = ValueError size_mismatch_msg \<or> e = ValueError size_small_msg \<or>
        e = ZeroDivisionError) \<and>
   (sorted_wrt (<) x \<longrightarrow> upper_convex_hull x y \<noteq> Inl ZeroDivisionError)"
proof -
  note r = convex_hull_results[of True x y, folded upper_convex_hull_def]
  have a: "upper_convex_hull x y = Inl (ValueError size_mismatch_msg) \<longleftrightarrow> length x \<noteq> length y"
    using r msgs_distinct(1) by auto
  have b: "upper_convex_hull x y = Inl (ValueError size_small_msg)
             \<longleftrightarrow> length x = length y \<and> length x \<le> 2"
    using r msgs_distinct(1) by auto
  have c: "\<forall>e. upper_convex_hull x y = Inl e \<longrightarrow>
        e = ValueError size_mismatch_msg \<or> e = ValueError size_small_msg \<or>
        e = ZeroDivisionError"
    using r by auto
  have d: "upper_convex_hull x y \<noteq> Inl ZeroDivisionError" if inc: "sorted_wrt (<) x"
  proof (cases "length x = length y \<and> 2 < length x")
    case True
    then show ?thesis
      using convex_hull_positions[of x y True] inc by (auto simp: upper_convex_hull_def)
  next
    case False
    then show ?thesis using r by auto
  qed
  show ?thesis using a b c d msgs_distinct(1) by blast
qed

theorem hull_builder_errors_witness:
  "sorted_wrt (<) [0, 1 :: real] \<and>
   upper_convex_hull [0, 1] [0, 1] = Inl (ValueError size_small_msg) \<and>
   upper_convex_hull [0, 1] [0, 1] \<noteq> Inl ZeroDivisionError \<and>
   upper_convex_hull [0, 1, 2, 3, 4] [0, 1, 2, 3] = Inl (ValueError size_mismatch_msg)"
  using hull_builder_errors[of "[0, 1]" "[0, 1]"]
    hull_builder_errors[of "[0, 1, 2, 3, 4]" "[0, 1, 2, 3]"] by simp

subsection \<open>Unsupported continuum type\<close>

lemma np_interp_errors:
  "np_interp xs xp fp = Inl e \<Longrightarrow> e = ValueError interp_empty_msg \<or> e = ValueError interp_size_msg"
  by (auto simp: np_interp_def split: if_splits)

lemma mask_select_errors: "mask_select flag a = Inl e \<Longrightarrow> e = IndexError"
  by (auto simp: mask_select_def split: if_splits)

text \<open>
  C7: \<open>continuum_removal\<close> fails with the unsupported-type error exactly when
  \<open>continuum_type\<close> is not \<open>uh\<close>; in particular it does for \<open>lh\<close>.
\<close>

theorem unsupported_type_error:
  "(continuum_removal x y t lo li ri ro = Inl (ValueError unsupported_msg) \<longleftrightarrow> t \<noteq> ''uh'') \<and>
   continuum_removal x y ''lh'' lo li ri ro = Inl (ValueError unsupported_msg)"
proof -
  have "continuum_removal x y ''uh'' lo li ri ro \<noteq> Inl (ValueError unsupported_msg)"
  proof
    assume f: "continuum_removal x y ''uh'' lo li ri ro = Inl (ValueError unsupported_msg)"
    let ?flag = "map (\<lambda>v. li \<le> v \<and> v \<le> ri) x"
    obtain xw where xw: "mask_select ?flag x = Inr xw"
      using f mask_select_errors[of ?flag x]
      by (cases "mask_select ?flag x") (auto simp: continuum_removal_def ebind_def)
    obtain yw where yw: "mask_select ?flag y = Inr yw"
      using f xw mask_select_errors[of ?flag y]
      by (cases "mask_select ?flag y") (auto simp: continuum_removal_def ebind_def)
    obtain hx hy where h: "upper_convex_hull xw yw = Inr (hx, hy)"
      using f xw yw convex_hull_results[of True xw yw, folded upper_convex_hull_def]
        msgs_distinct
      by (cases "upper_convex_hull xw yw") (auto simp: continuum_removal_def ebind_def)
    show False
      using f xw yw h np_interp_errors[of "map Fin xw" hx hy] msgs_distinct
      by (cases "np_interp (map Fin xw) hx hy") (auto simp: continuum_removal_def ebind_def)
  qed
  then show ?thesis by (auto simp: continuum_removal_def)
qed

subsection \<open>Collinear points\<close>

text \<open>
  C2 as stated fails: on the three collinear points (0,0), (1,1), (2,2), where every
  operation is exact in float64 too, the upper hull builder keeps all three.
\<close>

theorem collinear_upper_counterexample:
  "upper_convex_hull [0, 1, 2] [0, 1, 2] = Inr ([Fin 0, Fin 1, Fin 2], [Fin 0, Fin 1, Fin 2])"
  by (simp add: hull_eval_defs)

subsection \<open>The window\<close>

lemma window_x_positions: "window_x li ri x = map (\<lambda>k. x ! k) (inner_positions li ri x)"
proof -
  have "filter (\<lambda>v. li \<le> v \<and> v \<le> ri) (map (\<lambda>k. x ! k) [0..<length x])
          = map (\<lambda>k. x ! k) (filter (\<lambda>k. li \<le> x ! k \<and> x ! k \<le> ri) [0..<length x])"
    by (simp add: filter_map comp_def)
  then show ?thesis by (simp add: window_x_def inner_positions_def map_nth)
qed

lemma window_y_positions:
  assumes "length x = length y"
  shows "window_y li ri x y = map (\<lambda>k. y ! k) (inner_positions li ri x)"
proof -
  have z: "zip x y = map (\<lambda>k. (x ! k, y ! k)) [0..<length x]"
    using assms by (intro nth_equalityI) simp_all
  have "map snd (filter (\<lambda>(a, b). li \<le> a \<and> a \<le> ri) (map (\<lambda>k. (x ! k, y ! k)) [0..<length x]))
          = map (\<lambda>k. y ! k) (filter (\<lambda>k. li \<le> x ! k \<and> x ! k \<le> ri) [0..<length x])"
    by (simp add: filter_map comp_def)
  then show ?thesis by (simp add: window_y_def inner_positions_def z)
qed

lemma window_idem:
  assumes "length x = length y"
  shows "window_x li ri (window_x li ri x) = window_x li ri x"
    and "window_y li ri (window_x li ri x) (window_y li ri x y) = window_y li ri x y"
proof -
  show "window_x li ri (window_x li ri x) = window_x li ri x" by (simp add: window_x_def)
  show "window_y li ri (window_x li ri x) (window_y li ri x y) = window_y li ri x y"
    unfolding window_x_def window_y_def using assms
    by (induction x y rule: list_induct2) simp_all
qed

text \<open>
  C5: with type \<open>uh\<close> the result does not depend on the two outer bounds; it is the
  result for the spectrum restricted to the positions where
  \<open>left_inner \<le> x \<le> right_inner\<close>, and the wavelengths returned are the x values at
  exactly these positions.
\<close>

theorem window_inner_bounds_only:
  "continuum_removal x y ''uh'' lo li ri ro = continuum_removal x y ''uh'' lo' li ri ro' \<and>
   (length x = length y \<longrightarrow>
      continuum_removal x y ''uh'' lo li ri ro
        = continuum_removal (map (\<lambda>k. x ! k) (inner_positions li ri x))
            (map (\<lambda>k. y ! k) (inner_positions li ri x)) ''uh'' lo li ri ro) \<and>
   (\<forall>xw r c. continuum_removal x y ''uh'' lo li ri ro = Inr (xw, r, c) \<longrightarrow>
      xw = map (\<lambda>k. x ! k) (inner_positions li ri x))"
proof -
  have a: "continuum_removal x y ''uh'' lo li ri ro = continuum_removal x y ''uh'' lo' li ri ro'"
    by (simp add: continuum_removal_def)
  have b: "continuum_removal x y ''uh'' lo li ri ro
        = continuum_removal (map (\<lambda>k. x ! k) (inner_positions li ri x))
            (map (\<lambda>k. y ! k) (inner_positions li ri x)) ''uh'' lo li ri ro"
    if len: "length x = length y"
  proof -
    have lw: "length (window_x li ri x) = length (window_y li ri x y)"
      using window_lengths[OF len, of "\<lambda>v. li \<le> v \<and> v \<le> ri"]
      by (simp add: window_x_def window_y_def)
    show ?thesis
      unfolding window_x_positions[symmetric] window_y_positions[OF len, symmetric]
      by (simp only: continuum_removal_uh[OF len] continuum_removal_uh[OF lw] window_idem[OF len])
  qed
  have c: "xw = map (\<lambda>k. x ! k) (inner_positions li ri x)"
    if "continuum_removal x y ''uh'' lo li ri ro = Inr (xw, r, c)" for xw r c
    using that unfolding window_x_positions[symmetric]
    by (auto simp: continuum_removal_def Let_def mask_select_x window_x_def ebind_def
        split: sum.splits)
  show ?thesis using a b c by blast
qed

theorem window_inner_bounds_only_witness:
  "length [0, 1, 2, 3, 4 :: real] = length [0, 2, 1, 2, 0 :: real] \<and>
   inner_positions 1 3 [0, 1, 2, 3, 4] = [1, 2, 3] \<and>
   continuum_removal [0, 1, 2, 3, 4] [0, 2, 1, 2, 0] ''uh'' 7 1 3 9
     = Inr ([1, 2, 3], [Fin 1, Fin (1 / 2), Fin 1], [Fin 2, Fin 2, Fin 2]) \<and>
   continuum_removal [0, 1, 2, 3, 4] [0, 2, 1, 2, 0] ''uh'' 7 1 3 9
     = continuum_removal [1, 2, 3] [2, 1, 2] ''uh'' 7 1 3 9"
proof -
  have p: "inner_positions 1 3 [0, 1, 2, 3, 4] = [1, 2, 3]"
    by (simp add: inner_positions_def upt_rec)
  have v: "continuum_removal [0, 1, 2, 3, 4] [0, 2, 1, 2, 0] ''uh'' 7 1 3 9
     = Inr ([1, 2, 3], [Fin 1, Fin (1 / 2), Fin 1], [Fin 2, Fin 2, Fin 2])"
    by (simp add: continuum_removal_def mask_select_def hull_eval_defs np_interp_def
      interp_point_def feq_def inf_of_def)
  show ?thesis
    using window_inner_bounds_only[of "[0, 1, 2, 3, 4]" "[0, 2, 1, 2, 0]" 7 1 3 9 7 9] p v
    by simp
qed

subsection \<open>The hull size stays within the arrays\<close>

lemma loop_state_stack:
  assumes "loop_state up x y i s"
  shows "length y = length x \<and> i \<le> length x \<and> (\<exists>st. hull_rel x y s st \<and> stack_ok i st)"
  using assms
proof (induction rule: loop_state.induct)
  case (enter s)
  then have len: "length y = length x" by simp
  obtain s0 where "hull_init x y (length x) = Inr s0" "hull_rel x y s0 [1, 0]"
    using hull_init_rel[OF enter(2) len] by blast
  then have "hull_rel x y s [1, 0]" using enter(3) by simp
  moreover have "stack_ok 2 [1, 0]" by (simp add: stack_ok_def)
  ultimately show ?case using enter(2) len by auto
next
  case (pop i s)
  then obtain st where st: "hull_rel x y s st" "stack_ok i st" by blast
  obtain k1 k0 rest where e: "st = k1 # k0 # rest"
    using pop_test_True_stack[OF st(1) pop(3)] by blast
  have "hull_rel x y (s\<lparr>nh := nh s - 1\<rparr>) (k0 # rest)" using hull_rel_pop st(1) unfolding e .
  moreover have "stack_ok i (k0 # rest)" using stack_ok_pop st(2) unfolding e .
  ultimately show ?case using pop.IH by blast
next
  case (append i s s')
  then obtain st where st: "hull_rel x y s st" "stack_ok i st" and len: "length y = length x"
    by blast
  obtain s2 where "push x y i s = Inr s2" "hull_rel x y s2 (i # st)"
    using push_rel[OF st(1) len append(2) stack_room(1)[OF st(2) append(2)]] by blast
  then have "hull_rel x y s' (i # st)" using append(4) by simp
  then show ?case using stack_ok_push[OF st(2)] len append(2) by auto
qed

lemma loop_state_bounds:
  assumes "loop_state up x y i s"
  shows "1 \<le> nh s" and "nh s \<le> i" and "i \<le> length x"
    and "length (hullx s) = length x" and "length (hully s) = length x"
proof -
  obtain st where st: "hull_rel x y s st" "stack_ok i st" and i: "i \<le> length x"
    using loop_state_stack[OF assms] by blast
  have "length st \<le> Suc (hd st)" and "hd st < i" and "st \<noteq> []"
    using st(2) stack_length_le[of st] by (simp_all add: stack_ok_def)
  then show "1 \<le> nh s" and "nh s \<le> i"
    using st(1) by (simp_all add: hull_rel_def Suc_leI)
  show "i \<le> length x" by (rule i)
  show "length (hullx s) = length x" and "length (hully s) = length x"
    using st(1) by (simp_all add: hull_rel_def)
qed

lemma loop_state_accesses:
  assumes ls: "loop_state up x y i s" and i: "i < length x" and inc: "sorted_wrt (<) x"
  shows "(\<exists>b. pop_test up x y i s = Inr b) \<and> (\<exists>s'. push x y i s = Inr s')"
proof -
  obtain st where st: "hull_rel x y s st" "stack_ok i st" and len: "length y = length x"
    using loop_state_stack[OF ls] by blast
  have "\<exists>s'. push x y i s = Inr s'"
    using push_rel[OF st(1) len i stack_room(1)[OF st(2) i]] by blast
  moreover have "\<exists>b. pop_test up x y i s = Inr b"
  proof (cases st)
    case Nil
    then show ?thesis using st(2) by (simp add: stack_ok_def)
  next
    case (Cons k1 st1)
    show ?thesis
    proof (cases st1)
      case Nil
      then show ?thesis using pop_test_short st(1) unfolding Cons by blast
    next
      case (Cons k0 rest)
      note r = st(1)[unfolded \<open>st = k1 # st1\<close> Cons]
      note ok = st(2)[unfolded \<open>st = k1 # st1\<close> Cons]
      show ?thesis using pop_test_rel[OF r len i stack_distinct_x[OF inc i ok]] by simp
    qed
  qed
  ultimately show ?thesis by simp
qed

lemma hull_while_loop_state:
  "loop_state up x y i s \<Longrightarrow> i < length x \<Longrightarrow> hull_while up x y i s = Inr s1 \<Longrightarrow>
   loop_state up x y i s1 \<and> pop_test up x y i s1 = Inr False"
proof (induction up x y i s rule: hull_while.induct)
  case (1 up x y i s)
  show ?case
  proof (cases "pop_test up x y i s")
    case (Inl e)
    then show ?thesis using "1.prems"(3) by (subst (asm) hull_while.simps) simp
  next
    case (Inr t)
    show ?thesis
    proof (cases t)
      case True
      have e: "hull_while up x y i (s\<lparr>nh := nh s - 1\<rparr>) = Inr s1"
        using "1.prems"(3) Inr True by (subst (asm) hull_while.simps) simp
      have p: "pop_test up x y i s = Inr True" using Inr True by simp
      have "loop_state up x y i (s\<lparr>nh := nh s - 1\<rparr>)"
        using loop_state.pop[OF "1.prems"(1,2) p] .
      then show ?thesis using "1.IH"[OF Inr True _ "1.prems"(2) e] by simp
    next
      case False
      then have "s1 = s" using "1.prems"(3) Inr by (subst (asm) hull_while.simps) simp
      then show ?thesis using "1.prems"(1) Inr False by simp
    qed
  qed
qed

lemma hull_for_loop_state:
  "loop_state up x y i s \<Longrightarrow> hull_for up x y (length x) i s = Inr s' \<Longrightarrow>
   loop_state up x y (length x) s'"
proof (induction "length x - i" arbitrary: i s)
  case 0
  have "i \<le> length x" using loop_state_bounds(3)[OF "0.prems"(1)] .
  then have "i = length x" using "0.hyps" by simp
  then show ?case using "0.prems" by (subst (asm) hull_for.simps) simp
next
  case (Suc d)
  then have i: "i < length x" by simp
  have d: "d = length x - (i + 1)" using Suc.hyps(2) by simp
  obtain s1 where s1: "hull_while up x y i s = Inr s1"
    using Suc.prems(2) i
    by (subst (asm) hull_for.simps) (cases "hull_while up x y i s"; simp add: ebind_def)
  obtain s2 where s2: "push x y i s1 = Inr s2"
    using Suc.prems(2) i s1
    by (subst (asm) hull_for.simps) (cases "push x y i s1"; simp add: ebind_def)
  have e: "hull_for up x y (length x) (i + 1) s2 = Inr s'"
    using Suc.prems(2) i s1 s2 by (subst (asm) hull_for.simps) (simp add: ebind_def)
  have w: "loop_state up x y i s1" "pop_test up x y i s1 = Inr False"
    using hull_while_loop_state[OF Suc.prems(1) i s1] by simp_all
  have "loop_state up x y (i + 1) s2" using loop_state.append[OF w(1) i w(2) s2] .
  then show ?case using Suc.hyps(1)[OF d _ e] by simp
qed

lemma convex_hull_loop_state:
  assumes "convex_hull up x y = Inr h"
  shows "\<exists>s. loop_state up x y (length x) s \<and> h = (take (nh s) (hullx s), take (nh s) (hully s))"
proof -
  have len: "length x = length y" and n: "2 < length x"
    using assms by (auto simp: convex_hull_def Let_def split: if_splits)
  obtain s0 where s0: "hull_init x y (length x) = Inr s0"
    using assms len n
    by (cases "hull_init x y (length x)") (simp_all add: convex_hull_def Let_def ebind_def)
  obtain s where s: "hull_for up x y (length x) 2 s0 = Inr s"
    using assms len n s0
    by (cases "hull_for up x y (length x) 2 s0") (simp_all add: convex_hull_def Let_def ebind_def)
  have h: "h = (take (nh s) (hullx s), take (nh s) (hully s))"
    using assms len n s0 s by (simp add: convex_hull_def Let_def ebind_def)
  have "loop_state up x y (length x) s"
    using hull_for_loop_state[OF loop_state.enter[OF len n s0] s] .
  then show ?thesis using h by blast
qed

text \<open>
  C10: for every valid input of length \<open>n\<close>, in every state the loops of either
  builder pass through, \<open>1 \<le> nh \<le> i \<le> n\<close> and both hull arrays have length \<open>n\<close>;
  inside the loop (\<open>i < n\<close>) the reads of the loop test at \<open>nh - 2\<close> and \<open>nh - 1\<close>
  and the writes at \<open>nh\<close> succeed, that is, none is out of bounds; the builder returns
  from such a state, and the hull it returns has between 2 and \<open>n\<close> points.
\<close>

theorem hull_size_in_bounds:
  assumes len: "length x = length y" and n: "2 < length x" and inc: "sorted_wrt (<) x"
  shows "(\<forall>i s. loop_state up x y i s \<longrightarrow>
            1 \<le> nh s \<and> nh s \<le> i \<and> i \<le> length x \<and>
            length (hullx s) = length x \<and> length (hully s) = length x \<and>
            (i < length x \<longrightarrow>
               (\<exists>b. pop_test up x y i s = Inr b) \<and> (\<exists>s'. push x y i s = Inr s'))) \<and>
         (\<exists>s. loop_state up x y (length x) s \<and>
              (if up then upper_convex_hull x y else lower_convex_hull x y)
                = Inr (take (nh s) (hullx s), take (nh s) (hully s)) \<and>
              length (take (nh s) (hullx s)) = nh s \<and> length (take (nh s) (hully s)) = nh s \<and>
              2 \<le> nh s \<and> nh s \<le> length x)"
proof -
  have a: "1 \<le> nh s \<and> nh s \<le> i \<and> i \<le> length x \<and>
            length (hullx s) = length x \<and> length (hully s) = length x \<and>
            (i < length x \<longrightarrow>
               (\<exists>b. pop_test up x y i s = Inr b) \<and> (\<exists>s'. push x y i s = Inr s'))"
    if ls: "loop_state up x y i s" for i s
    using loop_state_bounds[OF ls] loop_state_accesses[OF ls _ inc] by simp
  obtain ks where ks: "2 \<le> length ks"
      "convex_hull up x y = Inr (map (\<lambda>k. Fin (x ! k)) ks, map (\<lambda>k. Fin (y ! k)) ks)"
    using convex_hull_positions[OF len n inc, of up] by blast
  obtain s where s: "loop_state up x y (length x) s"
      "(map (\<lambda>k. Fin (x ! k)) ks, map (\<lambda>k. Fin (y ! k)) ks)
         = (take (nh s) (hullx s), take (nh s) (hully s))"
    using convex_hull_loop_state[OF ks(2)] by blast
  have b: "nh s \<le> length x" "length (hullx s) = length x" "length (hully s) = length x"
    using loop_state_bounds[OF s(1)] by simp_all
  have "length (take (nh s) (hullx s)) = length ks" using s(2) by (metis length_map prod.inject)
  then have c: "2 \<le> nh s" using ks(1) b by simp
  have "(if up then upper_convex_hull x y else lower_convex_hull x y) = convex_hull up x y"
    by (simp add: upper_convex_hull_def lower_convex_hull_def)
  then have r: "(if up then upper_convex_hull x y else lower_convex_hull x y)
                = Inr (take (nh s) (hullx s), take (nh s) (hully s))"
    using ks(2) s(2) by simp
  have A: "\<forall>i s. loop_state up x y i s \<longrightarrow>
            1 \<le> nh s \<and> nh s \<le> i \<and> i \<le> length x \<and>
            length (hullx s) = length x \<and> length (hully s) = length x \<and>
            (i < length x \<longrightarrow>
               (\<exists>b. pop_test up x y i s = Inr b) \<and> (\<exists>s'. push x y i s = Inr s'))"
    using a by blast
  have B: "\<exists>s. loop_state up x y (length x) s \<and>
              (if up then upper_convex_hull x y else lower_convex_hull x y)
                = Inr (take (nh s) (hullx s), take (nh s) (hully s)) \<and>
              length (take (nh s) (hullx s)) = nh s \<and> length (take (nh s) (hully s)) = nh s \<and>
              2 \<le> nh s \<and> nh s \<le> length x"
    using s(1) r b c by (intro exI[of _ s]) simp
  show ?thesis using A B by (rule conjI)
qed

theorem hull_size_in_bounds_witness:
  "length [0, 1, 2, 3, 4 :: real] = length [0, 2, 1, 2, 0 :: real] \<and>
   2 < length [0, 1, 2, 3, 4 :: real] \<and> sorted_wrt (<) [0, 1, 2, 3, 4 :: real] \<and>
   loop_state True [0, 1, 2, 3, 4] [0, 2, 1, 2, 0] 2
     \<lparr>hullx = [Fin 0, Fin 1, NaN, NaN, NaN], hully = [Fin 0, Fin 2, NaN, NaN, NaN], nh = 2\<rparr> \<and>
   (2 :: nat) < length [0, 1, 2, 3, 4 :: real] \<and>
   pop_test True [0, 1, 2, 3, 4] [0, 2, 1, 2, 0] 2
     \<lparr>hullx = [Fin 0, Fin 1, NaN, NaN, NaN], hully = [Fin 0, Fin 2, NaN, NaN, NaN], nh = 2\<rparr>
     = Inr False \<and>
   (\<exists>s. loop_state True [0, 1, 2, 3, 4] [0, 2, 1, 2, 0] (length [0, 1, 2, 3, 4 :: real]) s \<and>
        upper_convex_hull [0, 1, 2, 3, 4] [0, 2, 1, 2, 0]
          = Inr (take (nh s) (hullx s), take (nh s) (hully s)) \<and>
        2 \<le> nh s \<and> nh s \<le> length [0, 1, 2, 3, 4 :: real])"
proof -
  have a: "length [0, 1, 2, 3, 4 :: real] = length [0, 2, 1, 2, 0 :: real]" by simp
  have b: "2 < length [0, 1, 2, 3, 4 :: real]" by simp
  have c: "sorted_wrt (<) [0, 1, 2, 3, 4 :: real]" by simp
  have i: "hull_init [0, 1, 2, 3, 4] [0, 2, 1, 2, 0] (length [0, 1, 2, 3, 4 :: real])
             = Inr \<lparr>hullx = [Fin 0, Fin 1, NaN, NaN, NaN],
                    hully = [Fin 0, Fin 2, NaN, NaN, NaN], nh = 2\<rparr>"
    by (simp add: hull_init_def aget_def aset_def ebind_def numeral_eq_Suc)
  have l: "loop_state True [0, 1, 2, 3, 4] [0, 2, 1, 2, 0] 2
     \<lparr>hullx = [Fin 0, Fin 1, NaN, NaN, NaN], hully = [Fin 0, Fin 2, NaN, NaN, NaN], nh = 2\<rparr>"
    using loop_state.enter[OF a b i] .
  have p: "pop_test True [0, 1, 2, 3, 4] [0, 2, 1, 2, 0] 2
     \<lparr>hullx = [Fin 0, Fin 1, NaN, NaN, NaN], hully = [Fin 0, Fin 2, NaN, NaN, NaN], nh = 2\<rparr>
     = Inr False"
    by (simp add: hull_eval_defs)
  show ?thesis
    using hull_size_in_bounds[OF a b c, of True] a b c l p by simp blast
qed

section \<open>Properties under rounded arithmetic\<close>

lemma expo_search_numeral:
  "expo_search (numeral k) a e =
     (if a < pow2 e then expo_search (pred_numeral k) a (e - 1)
      else if pow2 (e + 1) \<le> a then expo_search (pred_numeral k) a (e + 1)
      else e)"
  by (simp add: numeral_eq_Suc)

lemmas float_eval_defs =
  upper_convex_hull_fl_def lower_convex_hull_fl_def convex_hull_fl_def hull_init_def aget_def
  aset_def ebind_def pop_test_fl_def push_def left_turn_for_convex_hull_fl_def fdiv_py_fl_def
  fsub_fl_def fadd_fl_def fmul_fl_def fdiv_np_fl_def fgt_def hull_while_fl.simps
  hull_for_fl.simps

lemmas rne64_eval_defs =
  rne64_def overflow_def round_to_def quantum_def round_even_def pow2_def expo_search_numeral

subsection \<open>The scenarios under float64 rounding\<close>

text \<open>
  On the inputs of scenarios A and B and on a repeated \<open>x\<close> value no operation rounds:
  the code with float64 rounding returns what the exact functions return.
\<close>

lemma scenario_A_rounded:
  "upper_convex_hull_fl rne64 [0, 1, 2, 3, 4] [0, 2, 1, 2, 0]
     = Inr ([Fin 0, Fin 1, Fin 3, Fin 4], [Fin 0, Fin 2, Fin 2, Fin 0])"
  by (simp add: float_eval_defs rne64_eval_defs)

lemma scenario_B_rounded:
  "continuum_removal_fl rne64 [0, 1, 2, 3, 4] [0, 2, 1, 2, 0] ''uh'' lo 0 4 ro
     = Inr ([0, 1, 2, 3, 4], [NaN, Fin 1, Fin (1 / 2), Fin 1, NaN],
            [Fin 0, Fin 2, Fin 2, Fin 2, Fin 0])"
  by (simp add: continuum_removal_fl_def mask_select_def float_eval_defs np_interp_fl_def
      interp_point_fl_def feq_def inf_of_def rne64_eval_defs)

lemma duplicate_x_rounded:
  "upper_convex_hull_fl rne64 [0, 0, 1] [0, 0, 0] = Inl ZeroDivisionError"
  by (simp add: float_eval_defs rne64_eval_defs)

subsection \<open>Rounding breaks the envelope between hull vertices\<close>



subsection \<open>Three points with equal computed slopes\<close>

text \<open>
  C2, amended: for three input points whose two slopes, as the turn predicate computes
  them under any rounding, are the same finite number \<open>s\<close>, the upper hull builder
  returns all three points (the comparison \<open>slope2 > slope1\<close> is strict, so the middle
  point is not popped), and the lower hull builder pops the middle point and returns the
  two end points. Three collinear points whose differences and quotients are computed
  without rounding error, such as (0,0), (1,1), (2,2), are the case in point.
\<close>

theorem equal_slopes_three_points:
  assumes "fdiv_py_fl rd (fsub_fl rd (Fin y2) (Fin y1)) (fsub_fl rd (Fin b) (Fin a)) = Inr (Fin s)"
    and "fdiv_py_fl rd (fsub_fl rd (Fin y3) (Fin y2)) (fsub_fl rd (Fin c) (Fin b)) = Inr (Fin s)"
  shows "upper_convex_hull_fl rd [a, b, c] [y1, y2, y3]
           = Inr ([Fin a, Fin b, Fin c], [Fin y1, Fin y2, Fin y3]) \<and>
         lower_convex_hull_fl rd [a, b, c] [y1, y2, y3]
           = Inr ([Fin a, Fin c], [Fin y1, Fin y3])"
proof -
  have t: "left_turn_for_convex_hull_fl rd (Fin a) (Fin y1) (Fin b) (Fin y2) (Fin c) (Fin y3)
             = Inr False"
    using assms by (simp add: left_turn_for_convex_hull_fl_def ebind_def fgt_def)
  show ?thesis
    by (simp add: upper_convex_hull_fl_def lower_convex_hull_fl_def convex_hull_fl_def
        hull_init_def aget_def aset_def ebind_def pop_test_fl_def push_def t
        hull_while_fl.simps hull_for_fl.simps)
qed

theorem equal_slopes_three_points_witness:
  "fdiv_py_fl rne64 (fsub_fl rne64 (Fin 1) (Fin 0)) (fsub_fl rne64 (Fin 1) (Fin 0)) = Inr (Fin 1) \<and>
   fdiv_py_fl rne64 (fsub_fl rne64 (Fin 2) (Fin 1)) (fsub_fl rne64 (Fin 2) (Fin 1)) = Inr (Fin 1) \<and>
   upper_convex_hull_fl rne64 [0, 1, 2] [0, 1, 2]
     = Inr ([Fin 0, Fin 1, Fin 2], [Fin 0, Fin 1, Fin 2]) \<and>
   lower_convex_hull_fl rne64 [0, 1, 2] [0, 1, 2] = Inr ([Fin 0, Fin 2], [Fin 0, Fin 2])"
proof -
  have a: "fdiv_py_fl rne64 (fsub_fl rne64 (Fin 1) (Fin 0)) (fsub_fl rne64 (Fin 1) (Fin 0))
             = Inr (Fin 1)"
    by (simp add: fdiv_py_fl_def fsub_fl_def fdiv_np_fl_def rne64_eval_defs)
  have b: "fdiv_py_fl rne64 (fsub_fl rne64 (Fin 2) (Fin 1)) (fsub_fl rne64 (Fin 2) (Fin 1))
             = Inr (Fin 1)"
    by (simp add: fdiv_py_fl_def fsub_fl_def fdiv_np_fl_def rne64_eval_defs)
  show ?thesis
    using equal_slopes_three_points[of rne64 1 0 1 0 1 2 2, OF a b] a b by simp
qed


subsection \<open>The loops with rounded arithmetic keep the stack invariant\<close>

lemma fsub_fl_Fin [simp]: "fsub_fl rd (Fin a) (Fin b) = rd (a - b)"
  by (simp add: fsub_fl_def)





lemma pop_test_fl_True_stack:
  assumes "hull_rel x y s st" and "pop_test_fl rd up x y i s = Inr True"
  shows "\<exists>k1 k0 rest. st = k1 # k0 # rest"
proof -
  have "2 \<le> nh s" using assms(2) by (cases "2 \<le> nh s") (simp_all add: pop_test_fl_def)
  then have "2 \<le> length st" using assms(1) by (simp add: hull_rel_def)
  then show ?thesis by (cases st; cases "tl st") auto
qed






subsection \<open>The continuum at the hull vertices\<close>












end
